theory Spec2Isabelle
  imports Complex_Main
begin

section \<open>GeoDecode: offline reverse geocoding over a k-d tree\<close>

text \<open>
  The development follows \<^verbatim>\<open>geodecode.go\<close>.  Every Go function becomes a HOL function of the
  same name.  Mutation of the receiver is explicit state passing, log output is returned as a
  list of events, a panic is a value of the result type, and a nil slice is told apart from an
  empty one.
\<close>

subsection \<open>float64\<close>

text \<open>
  A \<^verbatim>\<open>float64\<close> is a finite number, one of the two infinities, or NaN.  Comparisons are the
  IEEE ones: every ordered comparison with NaN is false.  The sign of zero is not kept: it
  is invisible to every comparison the program makes.

  Arithmetic rounds.  The rounding is the parameter \<open>rnd\<close> of the three operations; the
  properties proved below need it to be monotone, idempotent and to fix zero
  (\<open>rounding\<close>), which round-to-nearest-even satisfies.  Overflow to an infinity is not
  modelled: the operands of the program's arithmetic have passed a range check or are NaN,
  so a finite result is below \<open>2 * 360\<^sup>2\<close>.
\<close>

datatype float64 = Fin real | PosInf | NegInf | NaN

fun f64_less :: "float64 \<Rightarrow> float64 \<Rightarrow> bool" where
  "f64_less NaN _ = False"
| "f64_less _ NaN = False"
| "f64_less (Fin a) (Fin b) = (a < b)"
| "f64_less (Fin a) PosInf = True"
| "f64_less (Fin a) NegInf = False"
| "f64_less PosInf _ = False"
| "f64_less NegInf (Fin b) = True"
| "f64_less NegInf PosInf = True"
| "f64_less NegInf NegInf = False"

definition f64_greater :: "float64 \<Rightarrow> float64 \<Rightarrow> bool" where
  "f64_greater a b = f64_less b a"

fun f64_le :: "float64 \<Rightarrow> float64 \<Rightarrow> bool" where
  "f64_le NaN _ = False"
| "f64_le _ NaN = False"
| "f64_le (Fin a) (Fin b) = (a \<le> b)"
| "f64_le (Fin a) PosInf = True"
| "f64_le (Fin a) NegInf = False"
| "f64_le PosInf PosInf = True"
| "f64_le PosInf _ = False"
| "f64_le NegInf _ = True"

fun f64_neg :: "float64 \<Rightarrow> float64" where
  "f64_neg (Fin a) = Fin (- a)"
| "f64_neg PosInf = NegInf"
| "f64_neg NegInf = PosInf"
| "f64_neg NaN = NaN"

fun f64_add :: "(real \<Rightarrow> real) \<Rightarrow> float64 \<Rightarrow> float64 \<Rightarrow> float64" where
  "f64_add rnd NaN _ = NaN"
| "f64_add rnd _ NaN = NaN"
| "f64_add rnd (Fin a) (Fin b) = Fin (rnd (a + b))"
| "f64_add rnd PosInf NegInf = NaN"
| "f64_add rnd NegInf PosInf = NaN"
| "f64_add rnd PosInf _ = PosInf"
| "f64_add rnd NegInf _ = NegInf"
| "f64_add rnd (Fin a) b = b"

definition f64_sub :: "(real \<Rightarrow> real) \<Rightarrow> float64 \<Rightarrow> float64 \<Rightarrow> float64" where
  "f64_sub rnd a b = f64_add rnd a (f64_neg b)"

fun f64_mul :: "(real \<Rightarrow> real) \<Rightarrow> float64 \<Rightarrow> float64 \<Rightarrow> float64" where
  "f64_mul rnd NaN _ = NaN"
| "f64_mul rnd _ NaN = NaN"
| "f64_mul rnd (Fin a) (Fin b) = Fin (rnd (a * b))"
| "f64_mul rnd (Fin a) PosInf = (if a = 0 then NaN else if 0 < a then PosInf else NegInf)"
| "f64_mul rnd (Fin a) NegInf = (if a = 0 then NaN else if 0 < a then NegInf else PosInf)"
| "f64_mul rnd PosInf (Fin b) = (if b = 0 then NaN else if 0 < b then PosInf else NegInf)"
| "f64_mul rnd NegInf (Fin b) = (if b = 0 then NaN else if 0 < b then NegInf else PosInf)"
| "f64_mul rnd PosInf PosInf = PosInf"
| "f64_mul rnd NegInf NegInf = PosInf"
| "f64_mul rnd PosInf NegInf = NegInf"
| "f64_mul rnd NegInf PosInf = NegInf"

text \<open>\<^verbatim>\<open>math.Min\<close>: minus infinity wins, then NaN, then the smaller operand.\<close>

definition math_Min :: "float64 \<Rightarrow> float64 \<Rightarrow> float64" where
  "math_Min x y =
     (if x = NegInf \<or> y = NegInf then NegInf
      else if x = NaN \<or> y = NaN then NaN
      else if f64_less x y then x else y)"

text \<open>\<^verbatim>\<open>math.IsInf(f, 1)\<close>.\<close>

definition math_IsInf_pos :: "float64 \<Rightarrow> bool" where
  "math_IsInf_pos f = (f = PosInf)"

definition rounding :: "(real \<Rightarrow> real) \<Rightarrow> bool" where
  "rounding rnd = ((\<forall>x y. x \<le> y \<longrightarrow> rnd x \<le> rnd y) \<and> (\<forall>x. rnd (rnd x) = rnd x) \<and> rnd 0 = 0)"

subsection \<open>Locations and index keys\<close>

record Location =
  Lat :: float64
  Lon :: float64
  City :: string
  Admin1 :: string
  Admin2 :: string
  CC :: string
  Country :: string

text \<open>The zero value \<^verbatim>\<open>Location{}\<close>.\<close>

definition empty_Location :: Location where
  "empty_Location =
     \<lparr>Lat = Fin 0, Lon = Fin 0, City = [], Admin1 = [], Admin2 = [], CC = [], Country = []\<rparr>"

text \<open>
  \<^verbatim>\<open>geoPoint\<close>: the two coordinates searched and the position of the owning record.
  \<^verbatim>\<open>kdtree.Dim\<close> is a natural number; the array \<^verbatim>\<open>LatLon\<close> has the two positions 0 and
  1, and \<open>component\<close> reads position 1 for every other dimension, where Go would panic.  The
  builder only produces the planes 0 and 1 (\<open>planes_ok\<close> below).
\<close>

record geoPoint =
  LatLon :: "float64 \<times> float64"
  Index :: int

definition component :: "float64 \<times> float64 \<Rightarrow> nat \<Rightarrow> float64" where
  "component a d = (if d = 0 then fst a else snd a)"

definition Compare :: "(real \<Rightarrow> real) \<Rightarrow> geoPoint \<Rightarrow> geoPoint \<Rightarrow> nat \<Rightarrow> float64" where
  "Compare rnd p q d = f64_sub rnd (component (LatLon p) d) (component (LatLon q) d)"

definition Dims :: "geoPoint \<Rightarrow> nat" where
  "Dims p = 2"

definition Distance :: "(real \<Rightarrow> real) \<Rightarrow> geoPoint \<Rightarrow> geoPoint \<Rightarrow> float64" where
  "Distance rnd p q =
     (let dLat = f64_sub rnd (component (LatLon p) 0) (component (LatLon q) 0);
          dLon = f64_sub rnd (component (LatLon p) 1) (component (LatLon q) 1)
      in f64_add rnd (f64_mul rnd dLat dLat) (f64_mul rnd dLon dLon))"

type_synonym geoPoints = "geoPoint list"

definition Len :: "geoPoints \<Rightarrow> int" where
  "Len p = int (length p)"

definition Swap :: "geoPoints \<Rightarrow> int \<Rightarrow> int \<Rightarrow> geoPoints" where
  "Swap p i j =
     (if i < 0 \<or> j < 0 \<or> i \<ge> Len p \<or> j \<ge> Len p then p
      else p[nat i := p ! nat j, nat j := p ! nat i])"

text \<open>
  \<^verbatim>\<open>Less\<close> reads the package variable \<^verbatim>\<open>currentSortDim\<close>, which \<^verbatim>\<open>Pivot\<close> sets just before
  it partitions; here the dimension is an argument.  Its two indices are always inside the
  list where \<open>Partition\<close> calls it.
\<close>

definition Less :: "nat \<Rightarrow> geoPoints \<Rightarrow> nat \<Rightarrow> nat \<Rightarrow> bool" where
  "Less currentSortDim p i j =
     f64_less (component (LatLon (p ! i)) currentSortDim) (component (LatLon (p ! j)) currentSortDim)"

subsection \<open>The k-d tree of the gonum library\<close>

text \<open>
  The package \<^verbatim>\<open>gonum.org/v1/gonum/spatial/kdtree\<close> is imported by the program and is not
  among its sources.  What the program calls of it, \<^verbatim>\<open>kdtree.Partition\<close>, \<^verbatim>\<open>kdtree.New\<close>
  and \<^verbatim>\<open>Tree.Nearest\<close>, is written after sections 4.1 and 4.2 of the specification.  The
  methods it calls back, \<^verbatim>\<open>Swap\<close>, \<^verbatim>\<open>Less\<close>, \<^verbatim>\<open>Pivot\<close>, \<^verbatim>\<open>Compare\<close> and \<^verbatim>\<open>Distance\<close>,
  are the program's own.
\<close>

text \<open>
  Modelled from the spec: \<^verbatim>\<open>kdtree.Partition\<close>, which is missing from the sources.  It
  partitions the range around the key at the position \<open>pivot\<close>: the pivot goes to the end,
  one pass moves every key that is not greater than it to the front, and the pivot is put
  behind them.  No key before the final position of the pivot is greater than it, and
  every key after it is.
\<close>

function Partition_loop ::
  "nat \<Rightarrow> nat \<Rightarrow> nat \<Rightarrow> nat \<Rightarrow> geoPoints \<Rightarrow> nat \<times> geoPoints" where
  "Partition_loop sdim lasti i index p =
     (if i < lasti then
        (if \<not> Less sdim p lasti i
         then Partition_loop sdim lasti (i + 1) (index + 1) (Swap p (int index) (int i))
         else Partition_loop sdim lasti (i + 1) index p)
      else (index, p))"
  by pat_completeness auto
termination
  by (relation "measure (\<lambda>(sdim, lasti, i, index, p). lasti - i)") auto

definition Partition :: "nat \<Rightarrow> geoPoints \<Rightarrow> int \<Rightarrow> int \<times> geoPoints" where
  "Partition sdim p pivot =
     (let lasti = Len p - 1 in
      if lasti < 0 then (- 1, p)
      else
        (let p1 = Swap p pivot lasti;
             (index, p2) = Partition_loop sdim (nat lasti) 0 0 p1
         in (int index, Swap p2 lasti (int index))))"

text \<open>
  \<^verbatim>\<open>geoPoints.Pivot\<close>, from the source: it sets the dimension to sort by and passes the
  dimension as the position of the pivot.
\<close>

definition Pivot :: "geoPoints \<Rightarrow> nat \<Rightarrow> int \<times> geoPoints" where
  "Pivot p sdim = Partition sdim p (int sdim)"

declare Partition_loop.simps [simp del]

lemma length_Swap [simp]: "length (Swap p i j) = length p"
  by (simp add: Swap_def)

lemma Partition_loop_length [simp]:
  "length (snd (Partition_loop sdim lasti i index p)) = length p"
proof (induction sdim lasti i index p rule: Partition_loop.induct)
  case (1 sdim lasti i index p)
  show ?case
    using 1 by (subst Partition_loop.simps) auto
qed

lemma Partition_loop_le:
  "index \<le> i \<Longrightarrow> i \<le> lasti \<Longrightarrow> fst (Partition_loop sdim lasti i index p) \<le> lasti"
proof (induction sdim lasti i index p rule: Partition_loop.induct)
  case (1 sdim lasti i index p)
  show ?case
    using 1 by (subst Partition_loop.simps) auto
qed

lemma Partition_length [simp]: "length (snd (Partition sdim p pivot)) = length p"
proof -
  have "length (snd (Partition_loop sdim n 0 0 q)) = length q" for n q
    by simp
  then show ?thesis
    by (auto simp: Partition_def Let_def split: prod.splits
        dest: arg_cong [where f = "\<lambda>x. length (snd x)"])
qed

lemma Partition_index:
  assumes "p \<noteq> []"
  shows "0 \<le> fst (Partition sdim p pivot) \<and> fst (Partition sdim p pivot) < int (length p)"
proof -
  have "fst (Partition_loop sdim (length p - 1) 0 0 (Swap p pivot (int (length p) - 1)))
          \<le> length p - 1"
    by (rule Partition_loop_le) simp_all
  with assms show ?thesis
    by (cases p) (auto simp: Partition_def Len_def Let_def nat_diff_distrib split: prod.splits)
qed

text \<open>
  Modelled from the spec: the nodes of the tree and the recursive build of \<^verbatim>\<open>kdtree.New\<close>,
  which are missing from the sources.  \<open>NoNode\<close> is the nil pointer.  An empty range
  gives no node; otherwise the pivot is the node, with the current split dimension, and
  the two ranges beside it are built at the next dimension.  The partition works in place
  and the two ranges do not overlap, so each recursive call sees exactly the keys the
  partition left there.
\<close>

datatype Node = NoNode | Node (Point: geoPoint) (Plane: nat) (Left: Node) (Right: Node)

function build :: "geoPoints \<Rightarrow> nat \<Rightarrow> Node" where
  "build p plane =
     (if Len p = 0 then NoNode
      else
        (let (piv, p') = Pivot p plane;
             d = p' ! nat piv;
             np = (plane + 1) mod Dims d
         in Node d plane (build (take (nat piv) p') np) (build (drop (nat piv + 1) p') np)))"
  by pat_completeness auto
termination
  apply (relation "measure (\<lambda>(p, plane). length p)")
    apply simp
  subgoal for p plane x piv p'
    using Partition_index [of p plane "int plane"] Partition_length [of plane p "int plane"]
    by (auto simp: Pivot_def Len_def dest: arg_cong [where f = fst] arg_cong [where f = snd])
  subgoal for p plane x piv p'
    using Partition_index [of p plane "int plane"] Partition_length [of plane p "int plane"]
    by (auto simp: Pivot_def Len_def dest: arg_cong [where f = fst] arg_cong [where f = snd])
  done

declare build.simps [simp del]

text \<open>Modelled from the spec: \<^verbatim>\<open>kdtree.Tree\<close> and \<^verbatim>\<open>kdtree.New\<close>, without bounding boxes.\<close>

record Tree =
  Root :: Node
  Count :: int

definition kdtree_New :: "geoPoints \<Rightarrow> bool \<Rightarrow> Tree" where
  "kdtree_New p bounding = \<lparr>Root = build p 0, Count = Len p\<rparr>"

text \<open>
  Modelled from the spec: the descent of \<^verbatim>\<open>Tree.Nearest\<close>, which is missing from the
  sources.  The node itself is the first candidate, the near subtree is searched with the
  distance found so far, and the far subtree only when the squared distance to the plane
  is below it.  A candidate replaces the best one only when it is strictly nearer, so of
  two keys at the same distance the one met first stays.
\<close>

fun search :: "(real \<Rightarrow> real) \<Rightarrow> Node \<Rightarrow> geoPoint \<Rightarrow> float64 \<Rightarrow> Node \<times> float64" where
  "search rnd NoNode q dst = (NoNode, PosInf)"
| "search rnd (Node pt plane l r) q dst0 =
     (let c = Compare rnd q pt plane;
          dst = math_Min dst0 (Distance rnd q pt);
          bn = Node pt plane l r
      in if f64_le c (Fin 0) then
           (let (ln, ld) = search rnd l q dst;
                (bn, dst) = (if f64_less ld dst then (ln, ld) else (bn, dst))
            in if f64_less (f64_mul rnd c c) dst then
                 (let (rn, rd) = search rnd r q dst
                  in if f64_less rd dst then (rn, rd) else (bn, dst))
               else (bn, dst))
         else
           (let (rn, rd) = search rnd r q dst;
                (bn, dst) = (if f64_less rd dst then (rn, rd) else (bn, dst))
            in if f64_less (f64_mul rnd c c) dst then
                 (let (ln, ld) = search rnd l q dst
                  in if f64_less ld dst then (ln, ld) else (bn, dst))
               else (bn, dst)))"

text \<open>
  Modelled from the spec: \<^verbatim>\<open>Tree.Nearest\<close>.  A tree without a root gives no key and the
  distance plus infinity.
\<close>

definition Nearest :: "(real \<Rightarrow> real) \<Rightarrow> Tree \<Rightarrow> geoPoint \<Rightarrow> geoPoint option \<times> float64" where
  "Nearest rnd t q =
     (if Root t = NoNode then (None, PosInf)
      else
        (let (n, dst) = search rnd (Root t) q PosInf
         in case n of NoNode \<Rightarrow> (None, PosInf) | Node pt _ _ _ \<Rightarrow> (Some pt, dst)))"

subsection \<open>The geocoder service\<close>

record RGeocoder =
  tree :: "Tree option"
  locations :: "Location list"
  once :: bool
  verbose :: bool

text \<open>
  A panic of the Go runtime, and the lines the program writes with \<^verbatim>\<open>log.Printf\<close> and
  \<^verbatim>\<open>log.Println\<close>, one constructor per call site with the values it prints (the elapsed
  time of the last one is left out).
\<close>

datatype panic = IndexOutOfRange | NilDereference

datatype log_event =
    Log_Loading
  | Log_FileNotFound
  | Log_HeaderError
  | Log_MissingColumn string
  | Log_SkipReadError int
  | Log_SkipInvalid int string string
  | Log_NoValid
  | Log_Parsed int
  | Log_OnlyOne
  | Log_Built int
  | Log_InvalidQuery float64 float64
  | Log_NoNearest "float64 \<times> float64"
  | Log_InvalidIndex int

text \<open>
  What the program takes from outside.
  \<^item> \<open>csv\<close>: the reader of \<^verbatim>\<open>loadData\<close>, over the embedded data when it is not empty and
    otherwise over the file \<^verbatim>\<open>./rg_cities1000.csv\<close>; \<open>None\<close> when that file cannot be
    opened.  The list holds what the successive calls of \<^verbatim>\<open>reader.Read\<close> return before
    \<^verbatim>\<open>io.EOF\<close>: a record or an error.  A reader that never returns \<^verbatim>\<open>io.EOF\<close> would keep
    the loop of \<^verbatim>\<open>loadData\<close> running; the list is finite, so such a reader is left out.
  \<^item> \<open>ParseFloat\<close>: \<^verbatim>\<open>strconv.ParseFloat(s, 64)\<close>, \<open>None\<close> when it returns an error.
  \<^item> \<open>fround\<close>: the rounding of float64 arithmetic.
  \<^item> \<open>countryName\<close>: \<^verbatim>\<open>countries.ByName(cc).Info().Name\<close>.
\<close>

datatype read_result = Record "string list" | ReadError

record environment =
  csv :: "read_result list option"
  ParseFloat :: "string \<Rightarrow> float64 option"
  fround :: "real \<Rightarrow> real"
  countryName :: "string \<Rightarrow> string"

text \<open>The range test, written out in the source at each of its three places.\<close>

definition out_of_range :: "float64 \<Rightarrow> float64 \<Rightarrow> bool" where
  "out_of_range lat lon =
     (f64_less lat (Fin (- 90)) \<or> f64_greater lat (Fin 90) \<or>
      f64_less lon (Fin (- 180)) \<or> f64_greater lon (Fin 180))"

fun colMap_loop :: "nat \<Rightarrow> string list \<Rightarrow> (string \<rightharpoonup> nat) \<Rightarrow> (string \<rightharpoonup> nat)" where
  "colMap_loop i [] colMap = colMap"
| "colMap_loop i (col # header) colMap = colMap_loop (i + 1) header (colMap(col \<mapsto> i))"

definition requiredCols :: "string list" where
  "requiredCols = [''lat'', ''lon'', ''city'', ''admin1'', ''admin2'', ''cc'']"

text \<open>
  \<^verbatim>\<open>record[colMap[k]]\<close>: a key that is not in the map reads as 0, and a position outside the
  record panics.
\<close>

definition field :: "string list \<Rightarrow> (string \<rightharpoonup> nat) \<Rightarrow> string \<Rightarrow> panic + string" where
  "field record colMap k =
     (let i = (case colMap k of None \<Rightarrow> 0 | Some i \<Rightarrow> i)
      in if i < length record then Inr (record ! i) else Inl IndexOutOfRange)"

text \<open>
  The loop over the rows.  \<open>i\<close> counts every row read, skipped or not; the two lists grow
  together, and the key of a record holds its position in the list of locations.
\<close>

fun loadRows ::
  "environment \<Rightarrow> bool \<Rightarrow> (string \<rightharpoonup> nat) \<Rightarrow> read_result list \<Rightarrow> int \<Rightarrow> geoPoints \<Rightarrow>
   Location list \<Rightarrow> log_event list \<Rightarrow> (panic + geoPoints \<times> Location list) \<times> log_event list" where
  "loadRows env vb colMap [] i parsedGeoPoints loadedLocations logs =
     (Inr (parsedGeoPoints, loadedLocations), logs)"
| "loadRows env vb colMap (ReadError # rest) i parsedGeoPoints loadedLocations logs =
     loadRows env vb colMap rest (i + 1) parsedGeoPoints loadedLocations
       (logs @ [Log_SkipReadError (i + 1)])"
| "loadRows env vb colMap (Record record # rest) i parsedGeoPoints loadedLocations logs =
     (case field record colMap ''lat'' of Inl e \<Rightarrow> (Inl e, logs) | Inr latStr \<Rightarrow>
      case field record colMap ''lon'' of Inl e \<Rightarrow> (Inl e, logs) | Inr lonStr \<Rightarrow>
      (case (ParseFloat env latStr, ParseFloat env lonStr) of
         (Some lat, Some lon) \<Rightarrow>
           if out_of_range lat lon then
             loadRows env vb colMap rest (i + 1) parsedGeoPoints loadedLocations
               (logs @ (if vb then [Log_SkipInvalid (i + 1) latStr lonStr] else []))
           else
             (case field record colMap ''city'' of Inl e \<Rightarrow> (Inl e, logs) | Inr city \<Rightarrow>
              case field record colMap ''admin1'' of Inl e \<Rightarrow> (Inl e, logs) | Inr admin1 \<Rightarrow>
              case field record colMap ''admin2'' of Inl e \<Rightarrow> (Inl e, logs) | Inr admin2 \<Rightarrow>
              case field record colMap ''cc'' of Inl e \<Rightarrow> (Inl e, logs) | Inr cc \<Rightarrow>
              (let fullLocation = \<lparr>Lat = lat, Lon = lon, City = city, Admin1 = admin1,
                                    Admin2 = admin2, CC = cc, Country = []\<rparr>;
                   loadedLocations = loadedLocations @ [fullLocation];
                   parsedGeoPoints = parsedGeoPoints @
                     [\<lparr>LatLon = (lat, lon), Index = int (length loadedLocations) - 1\<rparr>]
               in loadRows env vb colMap rest (i + 1) parsedGeoPoints loadedLocations logs))
       | _ \<Rightarrow>
           loadRows env vb colMap rest (i + 1) parsedGeoPoints loadedLocations
             (logs @ (if vb then [Log_SkipInvalid (i + 1) latStr lonStr] else []))))"

text \<open>
  \<^verbatim>\<open>loadData\<close> returns the panic, if one stopped it, the geocoder and the lines logged.  It
  assigns the tree and the locations only at its end, so every early return and a panic
  leave the geocoder as it was.
\<close>

definition loadData :: "environment \<Rightarrow> RGeocoder \<Rightarrow> panic option \<times> RGeocoder \<times> log_event list" where
  "loadData env rg =
     (let logs = (if verbose rg then [Log_Loading] else []) in
      case csv env of
        None \<Rightarrow> (None, rg, logs @ [Log_FileNotFound])
      | Some [] \<Rightarrow> (None, rg, logs @ [Log_HeaderError])
      | Some (ReadError # rows) \<Rightarrow> (None, rg, logs @ [Log_HeaderError])
      | Some (Record header # rows) \<Rightarrow>
          (let colMap = colMap_loop 0 header Map.empty in
           case List.find (\<lambda>reqCol. colMap reqCol = None) requiredCols of
             Some reqCol \<Rightarrow> (None, rg, logs @ [Log_MissingColumn reqCol])
           | None \<Rightarrow>
               (case loadRows env (verbose rg) colMap rows 0 [] [] logs of
                  (Inl e, logs) \<Rightarrow> (Some e, rg, logs)
                | (Inr (parsedGeoPoints, loadedLocations), logs) \<Rightarrow>
                    if Len parsedGeoPoints = 0 then (None, rg, logs @ [Log_NoValid])
                    else
                      (let logs = logs @
                             (if verbose rg then [Log_Parsed (Len parsedGeoPoints)] else [])
                       in if Len parsedGeoPoints = 1 then
                            (None, rg\<lparr>locations := loadedLocations, tree := None\<rparr>,
                             logs @ [Log_OnlyOne])
                          else
                            (None,
                             rg\<lparr>tree := Some (kdtree_New parsedGeoPoints False),
                                locations := loadedLocations\<rparr>,
                             logs @ (if verbose rg
                                     then [Log_Built (int (length loadedLocations))]
                                     else []))))))"

text \<open>
  \<^verbatim>\<open>rg.once.Do(rg.loadData)\<close>: the first call runs the loader, and the \<^verbatim>\<open>sync.Once\<close> counts
  as done afterwards, also when the loader panicked.
\<close>

definition once_Do :: "environment \<Rightarrow> RGeocoder \<Rightarrow> panic option \<times> RGeocoder \<times> log_event list" where
  "once_Do env rg =
     (if once rg then (None, rg, [])
      else (let (e, rg', logs) = loadData env rg in (e, rg'\<lparr>once := True\<rparr>, logs)))"

text \<open>
  The body of the loop of \<^verbatim>\<open>Query\<close> for one coordinate: it returns nil from the whole
  call, panics, or appends one location and goes on.  A nil \<^verbatim>\<open>rg.tree\<close> with more than one
  location makes \<^verbatim>\<open>Nearest\<close> dereference nil.  The branch for a value that is not a
  \<^verbatim>\<open>geoPoint\<close> has no counterpart: the tree holds nothing else.
\<close>

datatype step = Return_nil | Panics panic | Append Location

definition Query_body ::
  "environment \<Rightarrow> RGeocoder \<Rightarrow> float64 \<times> float64 \<Rightarrow> step \<times> log_event list" where
  "Query_body env rg coord =
     (let lat = fst coord; lon = snd coord in
      if out_of_range lat lon then
        (Return_nil, if verbose rg then [Log_InvalidQuery lat lon] else [])
      else if tree rg = None \<and> length (locations rg) = 1 then
        (Append (locations rg ! 0), [])
      else
        (case tree rg of
           None \<Rightarrow> (Panics NilDereference, [])
         | Some t \<Rightarrow>
             (let queryPoint = \<lparr>LatLon = coord, Index = 0\<rparr>;
                  (nearestComparable, distSq) = Nearest (fround env) t queryPoint
              in case nearestComparable of
                   None \<Rightarrow>
                     (Append empty_Location, if verbose rg then [Log_NoNearest coord] else [])
                 | Some nearestGeoPoint \<Rightarrow>
                     if math_IsInf_pos distSq then
                       (Append empty_Location, if verbose rg then [Log_NoNearest coord] else [])
                     else if Index nearestGeoPoint \<ge> 0 \<and>
                             Index nearestGeoPoint < int (length (locations rg)) then
                       (Append (locations rg ! nat (Index nearestGeoPoint)), [])
                     else
                       (Append empty_Location, [Log_InvalidIndex (Index nearestGeoPoint)]))))"

text \<open>The loop over the coordinates.  The result \<open>None\<close> is the nil slice.\<close>

fun Query_loop ::
  "environment \<Rightarrow> RGeocoder \<Rightarrow> (float64 \<times> float64) list \<Rightarrow> Location list \<Rightarrow>
   (panic + Location list option) \<times> log_event list" where
  "Query_loop env rg [] results = (Inr (Some results), [])"
| "Query_loop env rg (coord # rest) results =
     (case Query_body env rg coord of
        (Return_nil, logs) \<Rightarrow> (Inr None, logs)
      | (Panics e, logs) \<Rightarrow> (Inl e, logs)
      | (Append l, logs) \<Rightarrow>
          (let (r, logs') = Query_loop env rg rest (results @ [l]) in (r, logs @ logs')))"

definition Query ::
  "environment \<Rightarrow> RGeocoder \<Rightarrow> (float64 \<times> float64) list \<Rightarrow>
   (panic + Location list option) \<times> RGeocoder \<times> log_event list" where
  "Query env rg0 coordinates =
     (case once_Do env rg0 of
        (Some e, rg, logs) \<Rightarrow> (Inl e, rg, logs)
      | (None, rg, logs) \<Rightarrow>
          if tree rg = None \<and> length (locations rg) = 0 then (Inr (Some []), rg, logs)
          else if length coordinates = 0 then (Inr (Some []), rg, logs)
          else (let (r, logs') = Query_loop env rg coordinates [] in (r, rg, logs @ logs')))"

subsection \<open>The singleton and the single-coordinate query\<close>

text \<open>
  The package variables \<^verbatim>\<open>geocoderInstance\<close> and \<^verbatim>\<open>geocoderOnce\<close>, and the store of the
  geocoders allocated so far: a \<^verbatim>\<open>*RGeocoder\<close> is a position in \<open>heap\<close>, and a new object
  takes the next free one.  A pointer outside the store cannot arise; the model gives it
  the panic of a nil pointer.
\<close>

text \<open>\<^verbatim>\<open>&RGeocoder{verbose: verbose}\<close>: no tree, no locations, the loader not yet run.\<close>

definition new_RGeocoder :: "bool \<Rightarrow> RGeocoder" where
  "new_RGeocoder vb = \<lparr>tree = None, locations = [], once = False, verbose = vb\<rparr>"

record world =
  geocoderInstance :: "nat option"
  geocoderOnce :: bool
  heap :: "RGeocoder list"

definition GetRGeocoder :: "bool \<Rightarrow> world \<Rightarrow> (panic + nat) \<times> world" where
  "GetRGeocoder vb w =
     (let w1 = (if geocoderOnce w then w
                else w\<lparr>heap := heap w @ [new_RGeocoder vb],
                       geocoderInstance := Some (length (heap w)),
                       geocoderOnce := True\<rparr>)
      in case geocoderInstance w1 of
           None \<Rightarrow> (Inl NilDereference, w1)
         | Some a \<Rightarrow>
             if a < length (heap w1)
             then (Inr a, w1\<lparr>heap := (heap w1)[a := (heap w1 ! a)\<lparr>verbose := vb\<rparr>]\<rparr>)
             else (Inl NilDereference, w1))"

definition FindLocation ::
  "environment \<Rightarrow> float64 \<times> float64 \<Rightarrow> bool \<Rightarrow> world \<Rightarrow>
   (panic + Location option) \<times> world \<times> log_event list" where
  "FindLocation env coordinate vb w =
     (if out_of_range (fst coordinate) (snd coordinate) then (Inr None, w, [])
      else
        (case GetRGeocoder vb w of
           (Inl e, w1) \<Rightarrow> (Inl e, w1, [])
         | (Inr geocoder, w1) \<Rightarrow>
             (let (r, rg, logs) = Query env (heap w1 ! geocoder) [coordinate];
                  w2 = w1\<lparr>heap := (heap w1)[geocoder := rg]\<rparr>
              in case r of
                   Inl e \<Rightarrow> (Inl e, w2, logs)
                 | Inr None \<Rightarrow> (Inr None, w2, logs)
                 | Inr (Some []) \<Rightarrow> (Inr None, w2, logs)
                 | Inr (Some (result # results)) \<Rightarrow>
                     (Inr (Some (result\<lparr>Country := countryName env (CC result)\<rparr>)), w2, logs))))"

subsection \<open>States and inputs\<close>

text \<open>
  What the loader guarantees of a geocoder: without a tree there is at most one location,
  with a tree there are at least two, and the planes of a tree are 0 and 1, the positions
  of \<^verbatim>\<open>LatLon\<close>.
\<close>

fun planes_ok :: "Node \<Rightarrow> bool" where
  "planes_ok NoNode = True"
| "planes_ok (Node pt plane l r) = (plane < 2 \<and> planes_ok l \<and> planes_ok r)"

definition state_ok :: "RGeocoder \<Rightarrow> bool" where
  "state_ok rg =
     (case tree rg of
        None \<Rightarrow> length (locations rg) \<le> 1
      | Some t \<Rightarrow> planes_ok (Root t) \<and> 2 \<le> length (locations rg))"

text \<open>
  The states a geocoder can be in under an environment: a new one, one whose \<^verbatim>\<open>verbose\<close>
  field was written (as \<^verbatim>\<open>GetRGeocoder\<close> does), and one left by a query.
\<close>

inductive reachable :: "environment \<Rightarrow> RGeocoder \<Rightarrow> bool" for env where
  fresh: "reachable env (new_RGeocoder vb)"
| set_verbose: "reachable env rg \<Longrightarrow> reachable env (rg\<lparr>verbose := vb\<rparr>)"
| query: "reachable env rg \<Longrightarrow> reachable env (fst (snd (Query env rg coordinates)))"

text \<open>
  The guarantee of \<^verbatim>\<open>csv.Reader\<close> with its default \<^verbatim>\<open>FieldsPerRecord\<close>: a record returned
  without an error has as many fields as the first one.
\<close>

definition csv_ok :: "environment \<Rightarrow> bool" where
  "csv_ok env =
     (case csv env of
        Some (Record header # rows) \<Rightarrow>
          list_all (\<lambda>r. case r of Record rcd \<Rightarrow> length rcd = length header | ReadError \<Rightarrow> True) rows
      | _ \<Rightarrow> True)"

text \<open>
  The package variables are consistent: once \<^verbatim>\<open>geocoderOnce\<close> is done,
  \<^verbatim>\<open>geocoderInstance\<close> points to an allocated geocoder.
\<close>

definition world_ok :: "world \<Rightarrow> bool" where
  "world_ok w =
     (if geocoderOnce w
      then (case geocoderInstance w of None \<Rightarrow> False | Some a \<Rightarrow> a < length (heap w))
      else True)"

text \<open>The test of the specification's data model: both coordinates inside their intervals.\<close>

definition in_range :: "float64 \<Rightarrow> float64 \<Rightarrow> bool" where
  "in_range lat lon =
     (f64_le (Fin (- 90)) lat \<and> f64_le lat (Fin 90) \<and>
      f64_le (Fin (- 180)) lon \<and> f64_le lon (Fin 180))"

text \<open>The key of each location: its two coordinates and its position.\<close>

definition keys_of :: "Location list \<Rightarrow> geoPoints" where
  "keys_of locs =
     map (\<lambda>i. \<lparr>LatLon = (Lat (locs ! i), Lon (locs ! i)), Index = int i\<rparr>) [0..<length locs]"

definition tree_ok :: "RGeocoder \<Rightarrow> bool" where
  "tree_ok rg = (case tree rg of None \<Rightarrow> True | Some t \<Rightarrow> t = kdtree_New (keys_of (locations rg)) False)"

text \<open>The location a step of the loop appends.\<close>

definition appended :: "step \<Rightarrow> Location" where
  "appended st = (case st of Append l \<Rightarrow> l | _ \<Rightarrow> empty_Location)"

text \<open>
  The squared distance of the specification between a query coordinate and a record,
  \<open>(\<Delta>lat)\<^sup>2 + (\<Delta>lon)\<^sup>2\<close>, in float64 arithmetic with the rounding \<open>rnd\<close>.  It is written
  from the formula, on the coordinate and the two fields of the record, and not from
  \<^verbatim>\<open>geoPoint.Distance\<close>; \<open>Distance_sq_distance\<close> below compares the two.
\<close>

definition sq_distance :: "(real \<Rightarrow> real) \<Rightarrow> float64 \<times> float64 \<Rightarrow> Location \<Rightarrow> float64" where
  "sq_distance rnd coord l =
     (let dlat = f64_sub rnd (fst coord) (Lat l);
          dlon = f64_sub rnd (snd coord) (Lon l)
      in f64_add rnd (f64_mul rnd dlat dlat) (f64_mul rnd dlon dlon))"

subsection \<open>Sample environments\<close>

text \<open>
  \<^verbatim>\<open>strconv.ParseFloat\<close> on the strings the samples use: decimal integers with an optional
  minus sign, and \<^verbatim>\<open>NaN\<close>, which Go parses without an error.  Every other string is an error
  here.
\<close>

definition digit :: "char \<Rightarrow> int option" where
  "digit c = map_of (zip ''0123456789'' [0, 1, 2, 3, 4, 5, 6, 7, 8, 9]) c"

fun digits :: "int \<Rightarrow> string \<Rightarrow> int option" where
  "digits acc [] = Some acc"
| "digits acc (c # cs) =
     (case digit c of None \<Rightarrow> None | Some d \<Rightarrow> digits (10 * acc + d) cs)"

definition ParseFloat_sample :: "string \<Rightarrow> float64 option" where
  "ParseFloat_sample s =
     (if s = ''NaN'' then Some NaN
      else case s of
        [] \<Rightarrow> None
      | c # cs \<Rightarrow>
          if c = CHR ''-''
          then (if cs = [] then None
                else map_option (\<lambda>n. Fin (- real_of_int n)) (digits 0 cs))
          else map_option (\<lambda>n. Fin (real_of_int n)) (digits 0 s))"

definition header_sample :: "string list" where
  "header_sample = [''lat'', ''lon'', ''city'', ''admin1'', ''admin2'', ''cc'']"

definition env_of :: "read_result list option \<Rightarrow> environment" where
  "env_of rows =
     \<lparr>csv = rows,
      ParseFloat = ParseFloat_sample,
      fround = (\<lambda>x. x),
      countryName = (\<lambda>cc. if cc = ''GH'' then ''Ghana'' else ''Unknown'')\<rparr>"

text \<open>The data file cannot be opened.\<close>

definition env_nofile :: environment where
  "env_nofile = env_of None"

text \<open>The three points of the specification's first scenario.\<close>

definition env_abc :: environment where
  "env_abc =
     env_of (Some [Record header_sample,
                   Record [''0'', ''0'', ''A'', [], [], ''GH''],
                   Record [''10'', ''10'', ''B'', [], [], ''GH''],
                   Record [''-10'', ''-10'', ''C'', [], [], ''GH'']])"

text \<open>The single point of its fifth scenario.\<close>

definition env_x :: environment where
  "env_x = env_of (Some [Record header_sample, Record [''5'', ''5'', ''X'', [], [], ''GH'']])"

text \<open>A file whose first row has the latitude \<^verbatim>\<open>NaN\<close>.\<close>

definition env_nan :: environment where
  "env_nan =
     env_of (Some [Record header_sample,
                   Record [''NaN'', ''0'', ''A'', [], [], ''GH''],
                   Record [''0'', ''0'', ''B'', [], [], ''GH'']])"

text \<open>The package state before the first call.\<close>

definition world0 :: world where
  "world0 = \<lparr>geocoderInstance = None, geocoderOnce = False, heap = []\<rparr>"

text \<open>
  A geocoder the loader never produces: the key in its tree holds the position 7, and there
  are two locations.
\<close>

definition rg_bad :: RGeocoder where
  "rg_bad =
     \<lparr>tree = Some \<lparr>Root = Node \<lparr>LatLon = (Fin 0, Fin 0), Index = 7\<rparr> 0 NoNode NoNode, Count = 1\<rparr>,
      locations = [empty_Location, empty_Location],
      once = True,
      verbose = False\<rparr>"

subsection \<open>Notions of the proofs about the tree\<close>

text \<open>The keys of a tree, and the order of the keys around each node.\<close>

fun set_tree :: "Node \<Rightarrow> geoPoint set" where
  "set_tree NoNode = {}"
| "set_tree (Node pt plane l r) = insert pt (set_tree l \<union> set_tree r)"

fun invar :: "Node \<Rightarrow> bool" where
  "invar NoNode = True"
| "invar (Node pt plane l r) =
     ((\<forall>x \<in> set_tree l. \<not> f64_less (component (LatLon pt) plane) (component (LatLon x) plane)) \<and>
      (\<forall>x \<in> set_tree r. f64_less (component (LatLon pt) plane) (component (LatLon x) plane)) \<and>
      invar l \<and> invar r)"

definition finite_pair :: "float64 \<times> float64 \<Rightarrow> bool" where
  "finite_pair c = (\<exists>a b. c = (Fin a, Fin b))"

definition dval :: "float64 \<Rightarrow> bool" where
  "dval d = (d = PosInf \<or> (\<exists>x. d = Fin x))"

text \<open>
  The loop of the partition: the key at \<open>lasti\<close> is the pivot and stays; before \<open>index\<close>
  there is no key greater than it, from \<open>index\<close> up to \<open>i\<close> every key is greater.
\<close>

definition part_inv :: "nat \<Rightarrow> nat \<Rightarrow> nat \<Rightarrow> nat \<Rightarrow> geoPoints \<Rightarrow> bool" where
  "part_inv sdim lasti i index p =
     ((\<forall>j < index. \<not> Less sdim p lasti j) \<and> (\<forall>j. index \<le> j \<and> j < i \<longrightarrow> Less sdim p lasti j))"

text \<open>
  The two candidates of a step of the descent, and what the descent keeps: \<open>cur\<close> holds of
  the best node so far over the keys \<open>S\<close> seen, \<open>good\<close> of what a call returns for the keys
  \<open>T\<close> of its subtree.  In both, \<open>d0\<close> is the distance the call was given.
\<close>

definition better :: "Node \<times> float64 \<Rightarrow> Node \<times> float64 \<Rightarrow> Node \<times> float64" where
  "better new old = (if f64_less (snd new) (snd old) then new else old)"

definition found :: "(real \<Rightarrow> real) \<Rightarrow> geoPoint \<Rightarrow> geoPoint set \<Rightarrow> float64 \<Rightarrow> Node \<times> float64 \<Rightarrow> bool" where
  "found rnd q S d0 res =
     (f64_less (snd res) d0 \<longrightarrow>
        (\<exists>pt plane l r. fst res = Node pt plane l r \<and> pt \<in> S \<and> Distance rnd q pt = snd res))"

definition cur :: "(real \<Rightarrow> real) \<Rightarrow> geoPoint \<Rightarrow> geoPoint set \<Rightarrow> float64 \<Rightarrow> Node \<times> float64 \<Rightarrow> bool" where
  "cur rnd q S d0 res =
     (dval (snd res) \<and> f64_le (snd res) d0 \<and>
      (\<forall>x \<in> S. f64_le (snd res) (Distance rnd q x)) \<and> found rnd q S d0 res)"

definition good :: "(real \<Rightarrow> real) \<Rightarrow> geoPoint \<Rightarrow> geoPoint set \<Rightarrow> float64 \<Rightarrow> Node \<times> float64 \<Rightarrow> bool" where
  "good rnd q T d0 res =
     (dval (snd res) \<and>
      (\<forall>x \<in> T. f64_le (math_Min (snd res) d0) (Distance rnd q x)) \<and> found rnd q T d0 res)"

section \<open>Properties\<close>

subsection \<open>Invariants of the reachable states\<close>

lemma build_planes_ok: "plane < 2 \<Longrightarrow> planes_ok (build p plane)"
proof (induction p plane rule: build.induct)
  case (1 p plane)
  show ?case
    using 1 by (subst build.simps) (auto simp: Let_def Dims_def split: prod.splits)
qed

lemma loadRows_lengths:
  "loadRows env vb cm rows i pts locs logs = (Inr (pts', locs'), logs') \<Longrightarrow>
   length pts = length locs \<Longrightarrow> length pts' = length locs'"
proof (induction env vb cm rows i pts locs logs rule: loadRows.induct)
  case (1 env vb colMap i parsedGeoPoints loadedLocations logs)
  then show ?case by simp
next
  case (2 env vb colMap rest i parsedGeoPoints loadedLocations logs)
  then show ?case by simp
next
  case (3 env vb colMap rcd rest i parsedGeoPoints loadedLocations logs)
  then show ?case
    by (auto simp: Let_def split: sum.splits option.splits if_splits)
qed

lemma loadRows_lengths0:
  "loadRows env vb cm rows i [] [] logs = (Inr (pts', locs'), logs') \<Longrightarrow>
   length pts' = length locs'"
  by (drule loadRows_lengths) simp_all

lemma loadData_state_ok:
  assumes "state_ok rg" "loadData env rg = (e, rg', logs)"
  shows "state_ok rg'"
proof -
  have two: "2 \<le> length locs" if "pts \<noteq> []" "length pts \<noteq> 1" "length pts = length locs"
    for pts :: geoPoints and locs :: "Location list"
  proof -
    from that(1) have "0 < length pts" by simp
    with that(2,3) show ?thesis by linarith
  qed
  show ?thesis
    using assms
    by (auto simp: loadData_def Let_def state_ok_def kdtree_New_def Len_def build_planes_ok
        split: option.splits list.splits read_result.splits sum.splits prod.splits if_splits
        dest!: loadRows_lengths0 intro: two)
qed

lemma once_Do_state_ok:
  assumes "state_ok rg" "once_Do env rg = (e, rg', logs)"
  shows "state_ok rg'"
proof (cases "once rg")
  case True
  with assms show ?thesis by (simp add: once_Do_def)
next
  case False
  obtain e1 rg1 logs1 where l: "loadData env rg = (e1, rg1, logs1)"
    by (cases "loadData env rg") auto
  from loadData_state_ok [OF assms(1) l] have "state_ok rg1" .
  with assms(2) False l show ?thesis
    by (auto simp: once_Do_def state_ok_def split: option.splits)
qed

lemma Query_state: "fst (snd (Query env rg coordinates)) = fst (snd (once_Do env rg))"
  by (auto simp: Query_def split: prod.splits option.splits)

lemma reachable_state_ok: "reachable env rg \<Longrightarrow> state_ok rg"
proof (induction rule: reachable.induct)
  case (fresh vb)
  show ?case by (simp add: state_ok_def new_RGeocoder_def)
next
  case (set_verbose rg vb)
  then show ?case by (simp add: state_ok_def split: option.splits)
next
  case (query rg coordinates)
  obtain e rg' logs where "once_Do env rg = (e, rg', logs)"
    by (cases "once_Do env rg") auto
  with once_Do_state_ok [OF query.IH this] show ?case
    by (simp add: Query_state)
qed

lemma loadData_panic_state: "loadData env rg = (Some e, rg', logs) \<Longrightarrow> rg' = rg"
  by (auto simp: loadData_def Let_def
      split: option.splits list.splits read_result.splits sum.splits prod.splits if_splits)

lemma reachable_not_once: "reachable env rg \<Longrightarrow> \<not> once rg \<Longrightarrow> rg = new_RGeocoder (verbose rg)"
proof (induction rule: reachable.induct)
  case (fresh vb)
  show ?case by (simp add: new_RGeocoder_def)
next
  case (set_verbose rg vb)
  then have "rg = new_RGeocoder (verbose rg)" by simp
  then have "rg\<lparr>verbose := vb\<rparr> = (new_RGeocoder (verbose rg))\<lparr>verbose := vb\<rparr>" by simp
  then show ?case by (simp add: new_RGeocoder_def)
next
  case (query rg coordinates)
  then show ?case
    by (auto simp: Query_state once_Do_def split: if_splits prod.splits)
qed

lemma reachable_not_once_empty:
  assumes "reachable env rg" "\<not> once rg"
  shows "locations rg = [] \<and> tree rg = None"
proof -
  from reachable_not_once [OF assms] obtain vb where "rg = new_RGeocoder vb" ..
  then show ?thesis by (simp add: new_RGeocoder_def)
qed

lemma once_Do_nonempty_no_panic:
  assumes "reachable env rg0" "locations (fst (snd (once_Do env rg0))) \<noteq> []"
  shows "fst (once_Do env rg0) = None"
proof (rule ccontr)
  assume "fst (once_Do env rg0) \<noteq> None"
  then obtain p rg logs where od: "once_Do env rg0 = (Some p, rg, logs)"
    by (cases "once_Do env rg0") auto
  then have no: "\<not> once rg0" by (auto simp: once_Do_def split: if_splits)
  with od obtain rg1 where "loadData env rg0 = (Some p, rg1, logs)" "rg = rg1\<lparr>once := True\<rparr>"
    by (auto simp: once_Do_def split: prod.splits)
  with loadData_panic_state have "rg = rg0\<lparr>once := True\<rparr>" by blast
  with reachable_not_once_empty [OF assms(1) no] have "locations rg = []" by simp
  with assms(2) od show False by simp
qed

lemma once_Do_once: "once (fst (snd (once_Do env rg)))"
  by (simp add: once_Do_def case_prod_beta)

lemma Query_once:
  assumes "once rg"
  shows "fst (snd (Query env rg coordinates)) = rg"
  using assms by (simp add: Query_state once_Do_def)

lemma Query_empty_state:
  assumes "once rg" "tree rg = None" "locations rg = []"
  shows "Query env rg coordinates = (Inr (Some []), rg, [])"
  using assms by (simp add: Query_def once_Do_def)

subsection \<open>The loop of Query\<close>

lemma Query_loop_invalid:
  assumes "state_ok rg" "locations rg \<noteq> []"
  shows "\<exists>c \<in> set coordinates. out_of_range (fst c) (snd c) \<Longrightarrow>
         fst (Query_loop env rg coordinates results) = Inr None"
proof (induction coordinates arbitrary: results)
  case Nil
  then show ?case by simp
next
  case (Cons c coordinates)
  show ?case
  proof (cases "out_of_range (fst c) (snd c)")
    case True
    then show ?thesis by (simp add: Query_body_def)
  next
    case False
    with Cons.prems have ex: "\<exists>c \<in> set coordinates. out_of_range (fst c) (snd c)"
      by auto
    note ih = Cons.IH [OF ex]
    from assms have "tree rg = None \<Longrightarrow> length (locations rg) = 1"
      by (cases "locations rg") (auto simp: state_ok_def)
    with False ih show ?thesis
      by (auto simp: Query_body_def Let_def case_prod_beta split: option.splits)
  qed
qed

lemma Query_loop_append:
  "\<forall>c \<in> set coordinates. \<exists>l. fst (Query_body env rg c) = Append l \<Longrightarrow>
   Query_loop env rg coordinates results =
     (Inr (Some (results @ map (\<lambda>c. appended (fst (Query_body env rg c))) coordinates)),
      concat (map (\<lambda>c. snd (Query_body env rg c)) coordinates))"
proof (induction coordinates arbitrary: results)
  case Nil
  then show ?case by simp
next
  case (Cons c coordinates)
  then obtain l where l: "fst (Query_body env rg c) = Append l" by auto
  then obtain logs where "Query_body env rg c = (Append l, logs)"
    by (cases "Query_body env rg c") auto
  with Cons show ?case by (simp add: appended_def)
qed

lemma Query_body_single:
  assumes "tree rg = None" "locations rg = [x]" "\<not> out_of_range (fst c) (snd c)"
  shows "Query_body env rg c = (Append x, [])"
  using assms by (simp add: Query_body_def)

lemma Query_body_tree:
  assumes "tree rg = Some t" "\<not> out_of_range (fst c) (snd c)"
  shows "\<exists>l. fst (Query_body env rg c) = Append l"
  using assms by (simp add: Query_body_def Let_def case_prod_beta split: option.splits)

lemma Query_body_invalid_index:
  assumes "tree rg = Some t" "\<not> out_of_range (fst c) (snd c)"
      and "Nearest (fround env) t \<lparr>LatLon = c, Index = 0\<rparr> = (Some p, d)" "d \<noteq> PosInf"
      and "\<not> (0 \<le> Index p \<and> Index p < int (length (locations rg)))"
  shows "Query_body env rg c = (Append empty_Location, [Log_InvalidIndex (Index p)])"
  using assms by (auto simp: Query_body_def Let_def math_IsInf_pos_def)

lemma Query_body_verbose:
  "fround env' = fround env \<Longrightarrow>
   fst (Query_body env' (rg\<lparr>verbose := vb\<rparr>) c) = fst (Query_body env rg c)"
  by (simp add: Query_body_def Let_def case_prod_beta split: option.splits)

lemma Query_loop_verbose:
  "fround env' = fround env \<Longrightarrow>
   fst (Query_loop env' (rg\<lparr>verbose := vb\<rparr>) coordinates results) =
   fst (Query_loop env rg coordinates results)"
proof (induction coordinates arbitrary: results)
  case Nil
  show ?case by simp
next
  case (Cons c coordinates)
  from Query_body_verbose [OF Cons.prems, where rg = rg and vb = vb and c = c] Cons.IH [OF Cons.prems]
  show ?case
    by (cases "Query_body env' (rg\<lparr>verbose := vb\<rparr>) c"; cases "Query_body env rg c")
       (auto simp: case_prod_beta split: step.splits)
qed

subsection \<open>The loader\<close>

lemma colMap_loop_bound:
  "colMap_loop i header m k = Some j \<Longrightarrow> m k = Some j \<or> (i \<le> j \<and> j < i + length header)"
proof (induction header arbitrary: i m)
  case Nil
  then show ?case by simp
next
  case (Cons col header)
  from Cons.IH [OF Cons.prems [simplified]] show ?case
    by (auto split: if_splits)
qed

lemma field_ok: "cm k = Some j \<Longrightarrow> j < length rcd \<Longrightarrow> field rcd cm k = Inr (rcd ! j)"
  by (simp add: field_def)

lemma loadRows_no_panic:
  shows "\<forall>k \<in> set requiredCols. \<exists>j. cm k = Some j \<and> j < n \<Longrightarrow>
         list_all (\<lambda>r. case r of Record rcd \<Rightarrow> length rcd = n | ReadError \<Rightarrow> True) rows \<Longrightarrow>
         \<exists>res. fst (loadRows env vb cm rows i pts locs logs) = Inr res"
proof (induction env vb cm rows i pts locs logs rule: loadRows.induct)
  case (1 env vb colMap i parsedGeoPoints loadedLocations logs)
  show ?case by simp
next
  case (2 env vb colMap rest i parsedGeoPoints loadedLocations logs)
  then show ?case by simp
next
  case (3 env vb colMap rcd rest i parsedGeoPoints loadedLocations logs)
  from "3.prems"(2) have len: "length rcd = n" and rest: "list_all (\<lambda>r. case r of Record rcd \<Rightarrow> length rcd = n | ReadError \<Rightarrow> True) rest"
    by simp_all
  have f: "\<exists>v. field rcd colMap k = Inr v" if "k \<in> set requiredCols" for k
    using that "3.prems"(1) len by (auto simp: field_def)
  have "\<exists>v. field rcd colMap ''lat'' = Inr v" "\<exists>v. field rcd colMap ''lon'' = Inr v"
    "\<exists>v. field rcd colMap ''city'' = Inr v" "\<exists>v. field rcd colMap ''admin1'' = Inr v"
    "\<exists>v. field rcd colMap ''admin2'' = Inr v" "\<exists>v. field rcd colMap ''cc'' = Inr v"
    by (rule f, simp add: requiredCols_def)+
  then obtain v1 v2 v3 v4 v5 v6 where v:
    "field rcd colMap ''lat'' = Inr v1" "field rcd colMap ''lon'' = Inr v2"
    "field rcd colMap ''city'' = Inr v3" "field rcd colMap ''admin1'' = Inr v4"
    "field rcd colMap ''admin2'' = Inr v5" "field rcd colMap ''cc'' = Inr v6"
    by blast
  show ?case
    using "3.IH" [OF v(1) v(2)] "3.prems"(1) rest v
    by (auto simp: Let_def split: option.splits)
qed

lemma loadData_no_panic:
  assumes "csv_ok env"
  shows "fst (loadData env rg) = None"
proof (cases "csv env")
  case None
  then show ?thesis by (simp add: loadData_def Let_def)
next
  case (Some reads)
  show ?thesis
  proof (cases reads)
    case Nil
    with Some show ?thesis by (simp add: loadData_def Let_def)
  next
    case (Cons r rows)
    show ?thesis
    proof (cases r)
      case ReadError
      with Some Cons show ?thesis by (simp add: loadData_def Let_def)
    next
      case (Record header)
      define cm where "cm = colMap_loop 0 header Map.empty"
      show ?thesis
      proof (cases "List.find (\<lambda>reqCol. cm reqCol = None) requiredCols")
        case (Some reqCol)
        with \<open>csv env = Some reads\<close> Cons Record show ?thesis
          by (simp add: loadData_def Let_def cm_def)
      next
        case None
        then have "\<forall>k \<in> set requiredCols. \<exists>j. cm k = Some j"
          by (auto simp: find_None_iff)
        moreover have "j < length header" if "cm k = Some j" for k j
          using colMap_loop_bound [of 0 header Map.empty k j] that by (simp add: cm_def)
        ultimately have cols: "\<forall>k \<in> set requiredCols. \<exists>j. cm k = Some j \<and> j < length header"
          by blast
        from assms \<open>csv env = Some reads\<close> Cons Record
        have rows: "list_all (\<lambda>r. case r of Record rcd \<Rightarrow> length rcd = length header | ReadError \<Rightarrow> True) rows"
          by (simp add: csv_ok_def)
        have np: "\<exists>res. fst (loadRows env vb cm rows 0 [] [] logs) = Inr res" for vb logs
          by (rule loadRows_no_panic [OF cols rows])
        from np [of True "[Log_Loading]"] np [of False "[]"]
          None \<open>csv env = Some reads\<close> Cons Record show ?thesis
          by (auto simp: loadData_def Let_def cm_def split: prod.splits sum.splits)
      qed
    qed
  qed
qed

lemma once_Do_no_panic: "csv_ok env \<Longrightarrow> fst (once_Do env rg) = None"
  using loadData_no_panic [of env rg]
  by (simp add: once_Do_def case_prod_beta)

lemma in_range_iff:
  "in_range lat lon \<longleftrightarrow> \<not> out_of_range lat lon \<and> lat \<noteq> NaN \<and> lon \<noteq> NaN"
  by (cases lat; cases lon) (auto simp: in_range_def out_of_range_def f64_greater_def)

lemma loadRows_Record_cases:
  assumes "loadRows env vb cm (Record rcd # rest) i pts locs logs = (Inr res, logs')"
  shows "(\<exists>logs1. loadRows env vb cm rest (i + 1) pts locs logs1 = (Inr res, logs')) \<or>
         (\<exists>lat lon city admin1 admin2 cc.
            \<not> out_of_range lat lon \<and>
            loadRows env vb cm rest (i + 1)
              (pts @ [\<lparr>LatLon = (lat, lon), Index = int (length locs)\<rparr>])
              (locs @ [\<lparr>Lat = lat, Lon = lon, City = city, Admin1 = admin1, Admin2 = admin2,
                         CC = cc, Country = []\<rparr>]) logs = (Inr res, logs'))"
  using assms
  by (simp add: Let_def split: sum.splits option.splits if_splits) blast+

lemma loadRows_invariant:
  assumes step: "\<And>pts locs lat lon city admin1 admin2 cc.
      P pts locs \<Longrightarrow> \<not> out_of_range lat lon \<Longrightarrow>
      P (pts @ [\<lparr>LatLon = (lat, lon), Index = int (length locs)\<rparr>])
        (locs @ [\<lparr>Lat = lat, Lon = lon, City = city, Admin1 = admin1, Admin2 = admin2,
                   CC = cc, Country = []\<rparr>])"
  shows "loadRows env vb cm rows i pts locs logs = (Inr (pts', locs'), logs') \<Longrightarrow>
         P pts locs \<Longrightarrow> P pts' locs'"
proof (induction rows arbitrary: i pts locs logs)
  case Nil
  then show ?case by simp
next
  case (Cons r rows)
  show ?case
  proof (cases r)
    case ReadError
    with Cons.prems Cons.IH show ?thesis by auto
  next
    case (Record rcd)
    with Cons.prems(1) loadRows_Record_cases [of env vb cm rcd rows i pts locs logs "(pts', locs')" logs']
    consider logs1 where "loadRows env vb cm rows (i + 1) pts locs logs1 = (Inr (pts', locs'), logs')"
      | lat lon city admin1 admin2 cc where "\<not> out_of_range lat lon"
          "loadRows env vb cm rows (i + 1)
              (pts @ [\<lparr>LatLon = (lat, lon), Index = int (length locs)\<rparr>])
              (locs @ [\<lparr>Lat = lat, Lon = lon, City = city, Admin1 = admin1, Admin2 = admin2,
                         CC = cc, Country = []\<rparr>]) logs = (Inr (pts', locs'), logs')"
      by blast
    then show ?thesis
    proof cases
      case 1
      from Cons.IH [OF this Cons.prems(2)] show ?thesis .
    next
      case 2
      from Cons.IH [OF 2(2) step [OF Cons.prems(2) 2(1)]] show ?thesis .
    qed
  qed
qed

lemma loadRows_not_out_of_range:
  assumes "loadRows env vb cm rows i [] [] logs = (Inr (pts', locs'), logs')"
  shows "\<forall>l \<in> set locs'. \<not> out_of_range (Lat l) (Lon l)"
  by (rule loadRows_invariant [where P = "\<lambda>pts locs. \<forall>l \<in> set locs. \<not> out_of_range (Lat l) (Lon l)", OF _ assms])
     auto

lemma keys_of_snoc:
  "keys_of (locs @ [l]) = keys_of locs @ [\<lparr>LatLon = (Lat l, Lon l), Index = int (length locs)\<rparr>]"
  by (simp add: keys_of_def nth_append)

lemma keys_of_nth:
  "i < length locs \<Longrightarrow> keys_of locs ! i = \<lparr>LatLon = (Lat (locs ! i), Lon (locs ! i)), Index = int i\<rparr>"
  by (simp add: keys_of_def)

lemma loadRows_keys:
  assumes "loadRows env vb cm rows i [] [] logs = (Inr (pts', locs'), logs')"
  shows "pts' = keys_of locs'"
  by (rule loadRows_invariant [where P = "\<lambda>pts locs. pts = keys_of locs", OF _ assms])
     (simp_all add: keys_of_snoc, simp add: keys_of_def)

lemma loadData_tree_ok:
  assumes "tree_ok rg" "loadData env rg = (e, rg', logs)"
  shows "tree_ok rg'"
  using assms
  by (auto simp: loadData_def Let_def tree_ok_def
      split: option.splits list.splits read_result.splits sum.splits prod.splits if_splits
      dest!: loadRows_keys)

lemma once_Do_tree_ok:
  assumes "tree_ok rg" "once_Do env rg = (e, rg', logs)"
  shows "tree_ok rg'"
proof (cases "once rg")
  case True
  with assms show ?thesis by (simp add: once_Do_def)
next
  case False
  obtain e1 rg1 logs1 where l: "loadData env rg = (e1, rg1, logs1)"
    by (cases "loadData env rg") auto
  from loadData_tree_ok [OF assms(1) l] have "tree_ok rg1" .
  with assms(2) False l show ?thesis
    by (auto simp: once_Do_def tree_ok_def split: option.splits)
qed

lemma reachable_tree_ok: "reachable env rg \<Longrightarrow> tree_ok rg"
proof (induction rule: reachable.induct)
  case (fresh vb)
  show ?case by (simp add: tree_ok_def new_RGeocoder_def)
next
  case (set_verbose rg vb)
  then show ?case by (simp add: tree_ok_def split: option.splits)
next
  case (query rg coordinates)
  obtain e rg' logs where "once_Do env rg = (e, rg', logs)"
    by (cases "once_Do env rg") auto
  with once_Do_tree_ok [OF query.IH this] show ?case
    by (simp add: Query_state)
qed

subsection \<open>The partition and the build\<close>

lemma set_Swap [simp]: "set (Swap p i j) = set p"
proof (cases "i < 0 \<or> j < 0 \<or> i \<ge> Len p \<or> j \<ge> Len p")
  case True
  then show ?thesis by (simp add: Swap_def)
next
  case False
  then have "nat i < length p" "nat j < length p"
    by (auto simp: Len_def)
  from set_swap [OF this] False show ?thesis
    by (simp add: Swap_def)
qed

lemma Swap_nth:
  assumes "i < length p" "j < length p"
  shows "Swap p (int i) (int j) ! k = (if k = j then p ! i else if k = i then p ! j else p ! k)"
  using assms by (auto simp: Swap_def Len_def nth_list_update)

lemma Partition_loop_spec:
  "index \<le> i \<Longrightarrow> i \<le> lasti \<Longrightarrow> lasti < length p \<Longrightarrow> part_inv sdim lasti i index p \<Longrightarrow>
   (case Partition_loop sdim lasti i index p of
      (index', p') \<Rightarrow> index' \<le> lasti \<and> set p' = set p \<and> p' ! lasti = p ! lasti \<and>
                     part_inv sdim lasti lasti index' p')"
proof (induction sdim lasti i index p rule: Partition_loop.induct)
  case (1 sdim lasti i index p)
  show ?case
  proof (cases "i < lasti")
    case False
    with "1.prems" have "i = lasti" by simp
    with "1.prems" show ?thesis
      by (subst Partition_loop.simps) simp
  next
    case True
    show ?thesis
    proof (cases "Less sdim p lasti i")
      case l: True
      from "1.prems" True l have "part_inv sdim lasti (i + 1) index p"
        by (auto simp: part_inv_def less_Suc_eq)
      from "1.IH"(2) [OF True _ _ _ "1.prems"(3) this] l True "1.prems"
      show ?thesis
        by (subst Partition_loop.simps) simp
    next
      case l: False
      let ?p = "Swap p (int index) (int i)"
      from "1.prems" True have ix: "index < length p" "i < length p" "index < lasti" by simp_all
      have nth: "?p ! k = (if k = i then p ! index else if k = index then p ! i else p ! k)" for k
        by (rule Swap_nth [OF ix(1,2)])
      from True ix have pl: "?p ! lasti = p ! lasti"
        by (simp add: nth)
      have "part_inv sdim lasti (i + 1) (index + 1) ?p"
        unfolding part_inv_def
      proof (intro conjI allI impI)
        fix j assume "j < index + 1"
        with "1.prems"(1,4) l True ix show "\<not> Less sdim ?p lasti j"
          by (auto simp: Less_def nth part_inv_def less_Suc_eq)
      next
        fix j assume "index + 1 \<le> j \<and> j < i + 1"
        with "1.prems"(1,4) l True ix show "Less sdim ?p lasti j"
          by (auto simp: Less_def nth part_inv_def less_Suc_eq)
      qed
      from "1.IH"(1) [OF True l _ _ _ this] "1.prems" True ix pl l
      show ?thesis
        by (subst Partition_loop.simps) (auto split: prod.splits)
    qed
  qed
qed

lemma Partition_nonempty:
  assumes "p \<noteq> []"
  shows "Partition sdim p pivot =
           (int (fst (Partition_loop sdim (length p - 1) 0 0 (Swap p pivot (int (length p - 1))))),
            Swap (snd (Partition_loop sdim (length p - 1) 0 0 (Swap p pivot (int (length p - 1)))))
              (int (length p - 1))
              (int (fst (Partition_loop sdim (length p - 1) 0 0 (Swap p pivot (int (length p - 1)))))))"
proof -
  from assms obtain a list where "p = a # list" by (cases p) auto
  then show ?thesis
    by (simp add: Partition_def Len_def Let_def case_prod_beta)
qed

lemma Partition_spec:
  assumes "p \<noteq> []" and P: "Partition sdim p pivot = (k, p')"
  shows "0 \<le> k \<and> nat k < length p \<and> length p' = length p \<and> set p' = set p \<and>
         (\<forall>j < nat k. \<not> f64_less (component (LatLon (p' ! nat k)) sdim) (component (LatLon (p' ! j)) sdim)) \<and>
         (\<forall>j. nat k < j \<and> j < length p' \<longrightarrow>
              f64_less (component (LatLon (p' ! nat k)) sdim) (component (LatLon (p' ! j)) sdim))"
proof -
  define lasti where "lasti = length p - 1"
  define p1 where "p1 = Swap p pivot (int lasti)"
  obtain index p2 where loop: "Partition_loop sdim lasti 0 0 p1 = (index, p2)"
    by (cases "Partition_loop sdim lasti 0 0 p1") auto
  from assms(1) have l: "lasti < length p" "int lasti = int (length p) - 1"
    by (cases p; simp add: lasti_def)+
  have "part_inv sdim lasti 0 0 p1"
    by (simp add: part_inv_def)
  from Partition_loop_spec [of 0 0 lasti p1 sdim, OF _ _ _ this] l loop
  have ix: "index \<le> lasti" and st: "set p2 = set p" and inv: "part_inv sdim lasti lasti index p2"
    by (simp_all add: p1_def)
  from arg_cong [OF loop, of "\<lambda>x. length (snd x)"] have len2: "length p2 = length p"
    by (simp add: p1_def)
  from P loop have k: "k = int index" and p': "p' = Swap p2 (int lasti) (int index)"
    by (auto simp: Partition_nonempty [OF assms(1)] p1_def lasti_def)
  from ix l len2 have nth: "p' ! j = (if j = index then p2 ! lasti else if j = lasti then p2 ! index else p2 ! j)" for j
    unfolding p' by (subst Swap_nth) auto
  have "\<not> f64_less (component (LatLon (p' ! index)) sdim) (component (LatLon (p' ! j)) sdim)"
    if "j < index" for j
    using that inv ix by (auto simp: nth part_inv_def Less_def)
  moreover have "f64_less (component (LatLon (p' ! index)) sdim) (component (LatLon (p' ! j)) sdim)"
    if "index < j" "j < length p'" for j
  proof (cases "j = lasti")
    case True
    with that inv ix show ?thesis
      by (auto simp: nth part_inv_def Less_def)
  next
    case False
    with that l len2 have "j < lasti" by (simp add: p' lasti_def)
    with that inv ix show ?thesis
      by (auto simp: nth part_inv_def Less_def)
  qed
  ultimately show ?thesis
    using k ix l len2 st by (simp add: p')
qed

lemma set_take_nth_drop:
  "k < length xs \<Longrightarrow> set xs = insert (xs ! k) (set (take k xs) \<union> set (drop (Suc k) xs))"
  by (metis Cons_nth_drop_Suc append_take_drop_id list.simps(15) set_append Un_insert_right)

lemma build_Node:
  assumes "p \<noteq> []" "Partition plane p (int plane) = (k, p')"
  shows "build p plane =
           Node (p' ! nat k) plane (build (take (nat k) p') ((plane + 1) mod 2))
             (build (drop (nat k + 1) p') ((plane + 1) mod 2))"
  using assms by (subst build.simps) (simp add: Len_def Pivot_def Dims_def Let_def)

lemma build_Nil: "build [] plane = NoNode"
  by (subst build.simps) (simp add: Len_def)

lemma set_tree_build: "set_tree (build p plane) = set p"
proof (induction p plane rule: build.induct)
  case (1 p plane)
  show ?case
  proof (cases "p = []")
    case True
    then show ?thesis by (simp add: build_Nil)
  next
    case False
    obtain k p' where P: "Partition plane p (int plane) = (k, p')"
      by (cases "Partition plane p (int plane)") auto
    from Partition_spec [OF False P] have k: "nat k < length p'" and st: "set p' = set p"
      by simp_all
    from False have len: "Len p \<noteq> 0" by (simp add: Len_def)
    have pv: "(k, p') = Pivot p plane" by (simp add: Pivot_def P)
    note ih = "1.IH"(1) [OF len refl pv refl refl] "1.IH"(2) [OF len refl pv refl refl]
    from ih set_take_nth_drop [OF k] st show ?thesis
      by (simp add: build_Node [OF False P] Dims_def)
  qed
qed

lemma invar_build: "invar (build p plane)"
proof (induction p plane rule: build.induct)
  case (1 p plane)
  show ?case
  proof (cases "p = []")
    case True
    then show ?thesis by (simp add: build_Nil)
  next
    case False
    obtain k p' where P: "Partition plane p (int plane) = (k, p')"
      by (cases "Partition plane p (int plane)") auto
    from Partition_spec [OF False P] have k: "nat k < length p'"
      and le: "\<forall>j < nat k. \<not> f64_less (component (LatLon (p' ! nat k)) plane) (component (LatLon (p' ! j)) plane)"
      and gr: "\<forall>j. nat k < j \<and> j < length p' \<longrightarrow>
              f64_less (component (LatLon (p' ! nat k)) plane) (component (LatLon (p' ! j)) plane)"
      by simp_all
    from False have len: "Len p \<noteq> 0" by (simp add: Len_def)
    have pv: "(k, p') = Pivot p plane" by (simp add: Pivot_def P)
    note ih = "1.IH"(1) [OF len refl pv refl refl] "1.IH"(2) [OF len refl pv refl refl]
    have "\<not> f64_less (component (LatLon (p' ! nat k)) plane) (component (LatLon x) plane)"
      if "x \<in> set (take (nat k) p')" for x
    proof -
      from that obtain j where "j < nat k" "j < length p'" "x = p' ! j"
        by (auto simp: in_set_conv_nth)
      with le show ?thesis by simp
    qed
    moreover have "f64_less (component (LatLon (p' ! nat k)) plane) (component (LatLon x) plane)"
      if "x \<in> set (drop (nat k + 1) p')" for x
    proof -
      from that obtain j where "j < length p' - (nat k + 1)" "x = p' ! (nat k + 1 + j)"
        by (auto simp: in_set_conv_nth)
      with gr show ?thesis by simp
    qed
    ultimately show ?thesis
      using ih by (simp add: build_Node [OF False P] set_tree_build Dims_def)
  qed
qed

subsection \<open>The nearest key\<close>

lemma dval_simps [simp]: "dval PosInf" "dval (Fin x)" "\<not> dval NaN" "\<not> dval NegInf"
  by (simp_all add: dval_def)

lemma dval_not_less: "dval a \<Longrightarrow> dval b \<Longrightarrow> \<not> f64_less a b \<longleftrightarrow> f64_le b a"
  by (auto simp: dval_def)

lemma dval_le_trans: "f64_le a b \<Longrightarrow> f64_le b c \<Longrightarrow> f64_le a c"
  by (cases a; cases b; cases c) auto

lemma dval_less_le: "f64_less a b \<Longrightarrow> f64_le a b"
  by (cases a; cases b) auto

lemma dval_le_refl: "dval a \<Longrightarrow> f64_le a a"
  by (auto simp: dval_def)

lemma f64_le_antisym: "f64_le a b \<Longrightarrow> f64_le b a \<Longrightarrow> a = b"
  by (cases a; cases b) auto

lemma f64_less_irrefl [simp]: "\<not> f64_less a a"
  by (cases a) auto

lemma f64_less_PosInf [simp]: "\<not> f64_less PosInf a"
  by (cases a) auto

lemma dval_Min: "dval a \<Longrightarrow> dval b \<Longrightarrow> math_Min a b = (if f64_less a b then a else b)"
  by (auto simp: dval_def math_Min_def)

lemma rounding_nonneg: "rounding rnd \<Longrightarrow> 0 \<le> x \<Longrightarrow> 0 \<le> rnd x"
  by (metis rounding_def)

lemma rounding_mono: "rounding rnd \<Longrightarrow> x \<le> y \<Longrightarrow> rnd x \<le> rnd y"
  by (simp add: rounding_def)

lemma rounding_idem: "rounding rnd \<Longrightarrow> rnd (rnd x) = rnd x"
  by (simp add: rounding_def)

lemma Distance_finite:
  "LatLon q = (Fin a, Fin b) \<Longrightarrow> LatLon x = (Fin c, Fin d) \<Longrightarrow>
   Distance rnd q x =
     Fin (rnd (rnd (rnd (a - c) * rnd (a - c)) + rnd (rnd (b - d) * rnd (b - d))))"
  by (simp add: Distance_def component_def f64_sub_def Let_def)

lemma Compare_finite:
  "LatLon q = (Fin a, Fin b) \<Longrightarrow> LatLon x = (Fin c, Fin d) \<Longrightarrow>
   Compare rnd q x plane =
     Fin (rnd ((if plane = 0 then a else b) - (if plane = 0 then c else d)))"
  by (simp add: Compare_def component_def f64_sub_def)

lemma Distance_dval:
  "finite_pair (LatLon q) \<Longrightarrow> finite_pair (LatLon x) \<Longrightarrow> Distance rnd q x \<noteq> PosInf \<and> dval (Distance rnd q x)"
  by (auto simp: finite_pair_def Distance_finite)

text \<open>
  A key on the far side of the plane of a node is no nearer to the query point than the
  plane is: rounding keeps the order of the differences, of their squares and of the sums.
\<close>

lemma far_side_bound:
  assumes r: "rounding rnd"
    and far: "(rnd (u - p) \<le> 0 \<and> p \<le> x) \<or> (0 < rnd (u - p) \<and> x \<le> p)"
    and o: "0 \<le> other"
  shows "rnd (rnd (u - p) * rnd (u - p)) \<le> rnd (rnd (rnd (u - x) * rnd (u - x)) + other)"
    and "rnd (rnd (u - p) * rnd (u - p)) \<le> rnd (other + rnd (rnd (u - x) * rnd (u - x)))"
proof -
  let ?c = "rnd (u - p)" and ?cx = "rnd (u - x)"
  from far have "\<bar>?c\<bar> \<le> \<bar>?cx\<bar>"
  proof
    assume a: "?c \<le> 0 \<and> p \<le> x"
    then have "?cx \<le> ?c" using rounding_mono [OF r, of "u - x" "u - p"] by simp
    with a show ?thesis by simp
  next
    assume a: "0 < ?c \<and> x \<le> p"
    then have "?c \<le> ?cx" using rounding_mono [OF r, of "u - p" "u - x"] by simp
    with a show ?thesis by simp
  qed
  then have "?c * ?c \<le> ?cx * ?cx"
    by (simp add: abs_le_square_iff power2_eq_square)
  then have "rnd (?c * ?c) \<le> rnd (?cx * ?cx)"
    by (rule rounding_mono [OF r])
  also have "\<dots> = rnd (rnd (?cx * ?cx))"
    by (simp add: rounding_idem [OF r])
  finally have *: "rnd (?c * ?c) \<le> rnd (rnd (?cx * ?cx))" .
  from o have "rnd (rnd (?cx * ?cx)) \<le> rnd (rnd (?cx * ?cx) + other)"
    by (intro rounding_mono [OF r]) simp
  with * show "rnd (?c * ?c) \<le> rnd (rnd (?cx * ?cx) + other)" by simp
  then show "rnd (?c * ?c) \<le> rnd (other + rnd (?cx * ?cx))" by (simp add: add.commute)
qed

lemma prune:
  assumes r: "rounding rnd"
    and f: "finite_pair (LatLon q)" "finite_pair (LatLon pt)" "finite_pair (LatLon x)"
    and far: "(f64_le (Compare rnd q pt plane) (Fin 0) \<and>
               f64_less (component (LatLon pt) plane) (component (LatLon x) plane)) \<or>
              (\<not> f64_le (Compare rnd q pt plane) (Fin 0) \<and>
               \<not> f64_less (component (LatLon pt) plane) (component (LatLon x) plane))"
  shows "f64_le (f64_mul rnd (Compare rnd q pt plane) (Compare rnd q pt plane)) (Distance rnd q x)"
proof -
  from f obtain a b c d e g where
    q: "LatLon q = (Fin a, Fin b)" and pt: "LatLon pt = (Fin c, Fin d)" and x: "LatLon x = (Fin e, Fin g)"
    by (auto simp: finite_pair_def)
  have sq: "0 \<le> rnd (rnd v * rnd v)" for v
    by (rule rounding_nonneg [OF r]) simp
  show ?thesis
  proof (cases "plane = 0")
    case True
    with far q pt x have "(rnd (a - c) \<le> 0 \<and> c \<le> e) \<or> (0 < rnd (a - c) \<and> e \<le> c)"
      by (auto simp: Compare_finite component_def)
    from far_side_bound(1) [OF r this sq] True q pt x show ?thesis
      by (simp add: Compare_finite Distance_finite)
  next
    case False
    with far q pt x have "(rnd (b - d) \<le> 0 \<and> d \<le> g) \<or> (0 < rnd (b - d) \<and> g \<le> d)"
      by (auto simp: Compare_finite component_def)
    from far_side_bound(2) [OF r this sq] False q pt x show ?thesis
      by (simp add: Compare_finite Distance_finite)
  qed
qed

lemma search_Node:
  "search rnd (Node pt plane l r) q dst0 =
     (let c = Compare rnd q pt plane;
          s0 = (Node pt plane l r, math_Min dst0 (Distance rnd q pt))
      in if f64_le c (Fin 0) then
           (let s1 = better (search rnd l q (snd s0)) s0
            in if f64_less (f64_mul rnd c c) (snd s1)
               then better (search rnd r q (snd s1)) s1 else s1)
         else
           (let s1 = better (search rnd r q (snd s0)) s0
            in if f64_less (f64_mul rnd c c) (snd s1)
               then better (search rnd l q (snd s1)) s1 else s1))"
  by (simp add: better_def Let_def case_prod_beta)

lemma good_empty: "good rnd q {} d0 (NoNode, PosInf)"
  by (simp add: good_def found_def)

lemma cur_init:
  assumes "dval d0" "dval (Distance rnd q pt)"
  shows "cur rnd q {pt} d0 (Node pt plane l r, math_Min d0 (Distance rnd q pt))"
  using assms
  by (auto simp: cur_def found_def dval_Min dval_le_refl dval_not_less dval_less_le)

lemma cur_better:
  assumes c: "cur rnd q S d0 old" and g: "good rnd q A (snd old) new"
  shows "cur rnd q (S \<union> A) d0 (better new old)"
proof (cases "f64_less (snd new) (snd old)")
  case True
  from c g have dv: "dval (snd old)" "dval (snd new)" by (simp_all add: cur_def good_def)
  from True have le: "f64_le (snd new) (snd old)" by (rule dval_less_le)
  from c have "f64_le (snd old) d0" by (simp add: cur_def)
  with le have le0: "f64_le (snd new) d0" by (rule dval_le_trans)
  have "f64_le (snd new) (Distance rnd q x)" if "x \<in> S" for x
    using c that le by (auto simp: cur_def intro: dval_le_trans)
  moreover have "f64_le (snd new) (Distance rnd q x)" if "x \<in> A" for x
    using g that True dv by (auto simp: good_def dval_Min)
  moreover from g True have "found rnd q (S \<union> A) d0 new"
    by (auto simp: good_def found_def)
  ultimately show ?thesis
    using True dv le0 by (auto simp: cur_def better_def)
next
  case False
  from c g have dv: "dval (snd old)" "dval (snd new)" by (simp_all add: cur_def good_def)
  have "f64_le (snd old) (Distance rnd q x)" if "x \<in> A" for x
    using g that False dv by (auto simp: good_def dval_Min)
  with c False show ?thesis
    by (auto simp: cur_def better_def found_def)
qed

lemma cur_prune:
  assumes c: "cur rnd q S d0 old" and m: "dval m" "\<not> f64_less m (snd old)"
    and b: "\<forall>x \<in> B. f64_le m (Distance rnd q x)"
  shows "cur rnd q (S \<union> B) d0 old"
proof -
  from c have "dval (snd old)" by (simp add: cur_def)
  with m have "f64_le (snd old) m" by (simp add: dval_not_less)
  with b have "\<forall>x \<in> B. f64_le (snd old) (Distance rnd q x)"
    by (auto intro: dval_le_trans)
  with c show ?thesis
    by (auto simp: cur_def found_def)
qed

lemma cur_good:
  assumes "cur rnd q S d0 res" "dval d0"
  shows "good rnd q S d0 res"
proof -
  from assms have dv: "dval (snd res)" "dval d0" and le: "f64_le (snd res) d0"
    by (simp_all add: cur_def)
  have "math_Min (snd res) d0 = snd res"
  proof (cases "f64_less (snd res) d0")
    case True
    with dv show ?thesis by (simp add: dval_Min)
  next
    case False
    with dv have "f64_le d0 (snd res)" by (simp add: dval_not_less)
    with le have "d0 = snd res" by (rule f64_le_antisym [symmetric])
    with dv False show ?thesis by (simp add: dval_Min)
  qed
  with assms show ?thesis
    by (simp add: cur_def good_def)
qed

lemma f64_mul_dval:
  "finite_pair (LatLon q) \<Longrightarrow> finite_pair (LatLon pt) \<Longrightarrow>
   dval (f64_mul rnd (Compare rnd q pt plane) (Compare rnd q pt plane))"
  by (auto simp: finite_pair_def Compare_finite)

lemma search_good:
  assumes r: "rounding rnd" and q: "finite_pair (LatLon q)"
  shows "\<forall>x \<in> set_tree t. finite_pair (LatLon x) \<Longrightarrow> invar t \<Longrightarrow> dval d0 \<Longrightarrow>
         good rnd q (set_tree t) d0 (search rnd t q d0)"
proof (induction t arbitrary: d0)
  case NoNode
  show ?case by (simp add: good_empty)
next
  case (Node pt plane l r)
  let ?c = "Compare rnd q pt plane"
  let ?m = "f64_mul rnd ?c ?c"
  let ?s0 = "(Node pt plane l r, math_Min d0 (Distance rnd q pt))"
  from Node.prems have fpt: "finite_pair (LatLon pt)"
    and fl: "\<forall>x \<in> set_tree l. finite_pair (LatLon x)"
    and fr: "\<forall>x \<in> set_tree r. finite_pair (LatLon x)"
    and il: "invar l" and ir: "invar r"
    by simp_all
  from Distance_dval [OF q fpt] have dpt: "dval (Distance rnd q pt)" by simp
  have s0: "cur rnd q {pt} d0 ?s0"
    by (rule cur_init [OF Node.prems(3) dpt])
  have dm: "dval ?m" by (rule f64_mul_dval [OF q fpt])
  have gl: "good rnd q (set_tree l) d (search rnd l q d)" if "dval d" for d
    by (rule Node.IH(1) [OF fl il that])
  have gr: "good rnd q (set_tree r) d (search rnd r q d)" if "dval d" for d
    by (rule Node.IH(2) [OF fr ir that])
  have dc: "dval (snd s)" if "cur rnd q S d0 s" for s S
    using that by (simp add: cur_def)
  have all: "{pt} \<union> set_tree l \<union> set_tree r = set_tree (Node pt plane l r)"
    "{pt} \<union> set_tree r \<union> set_tree l = set_tree (Node pt plane l r)"
    by auto
  have res: "cur rnd q (set_tree (Node pt plane l r)) d0 (search rnd (Node pt plane l r) q d0)"
  proof (cases "f64_le ?c (Fin 0)")
    case True
    let ?s1 = "better (search rnd l q (snd ?s0)) ?s0"
    have s1: "cur rnd q ({pt} \<union> set_tree l) d0 ?s1"
      by (rule cur_better [OF s0 gl [OF dc [OF s0]]])
    have pr: "\<forall>x \<in> set_tree r. f64_le ?m (Distance rnd q x)"
    proof
      fix x assume x: "x \<in> set_tree r"
      with fr have fx: "finite_pair (LatLon x)" by simp
      from x Node.prems(2) have "f64_less (component (LatLon pt) plane) (component (LatLon x) plane)"
        by simp
      with True show "f64_le ?m (Distance rnd q x)"
        by (intro prune [OF r q fpt fx]) simp
    qed
    show ?thesis
    proof (cases "f64_less ?m (snd ?s1)")
      case True
      have "cur rnd q ({pt} \<union> set_tree l \<union> set_tree r) d0 (better (search rnd r q (snd ?s1)) ?s1)"
        by (rule cur_better [OF s1 gr [OF dc [OF s1]]])
      moreover from \<open>f64_le ?c (Fin 0)\<close> True
      have "search rnd (Node pt plane l r) q d0 = better (search rnd r q (snd ?s1)) ?s1"
        by (simp add: search_Node Let_def del: search.simps)
      ultimately show ?thesis
        by (simp only: all)
    next
      case False
      have "cur rnd q ({pt} \<union> set_tree l \<union> set_tree r) d0 ?s1"
        by (rule cur_prune [OF s1 dm False pr])
      moreover from \<open>f64_le ?c (Fin 0)\<close> False
      have "search rnd (Node pt plane l r) q d0 = ?s1"
        by (simp add: search_Node Let_def del: search.simps)
      ultimately show ?thesis
        by (simp only: all)
    qed
  next
    case False
    let ?s1 = "better (search rnd r q (snd ?s0)) ?s0"
    have s1: "cur rnd q ({pt} \<union> set_tree r) d0 ?s1"
      by (rule cur_better [OF s0 gr [OF dc [OF s0]]])
    have pr: "\<forall>x \<in> set_tree l. f64_le ?m (Distance rnd q x)"
    proof
      fix x assume x: "x \<in> set_tree l"
      with fl have fx: "finite_pair (LatLon x)" by simp
      from x Node.prems(2) have "\<not> f64_less (component (LatLon pt) plane) (component (LatLon x) plane)"
        by simp
      with False show "f64_le ?m (Distance rnd q x)"
        by (intro prune [OF r q fpt fx]) simp
    qed
    show ?thesis
    proof (cases "f64_less ?m (snd ?s1)")
      case True
      have "cur rnd q ({pt} \<union> set_tree r \<union> set_tree l) d0 (better (search rnd l q (snd ?s1)) ?s1)"
        by (rule cur_better [OF s1 gl [OF dc [OF s1]]])
      moreover from \<open>\<not> f64_le ?c (Fin 0)\<close> True
      have "search rnd (Node pt plane l r) q d0 = better (search rnd l q (snd ?s1)) ?s1"
        by (simp add: search_Node Let_def del: search.simps)
      ultimately show ?thesis
        by (simp only: all)
    next
      case False
      have "cur rnd q ({pt} \<union> set_tree r \<union> set_tree l) d0 ?s1"
        by (rule cur_prune [OF s1 dm False pr])
      moreover from \<open>\<not> f64_le ?c (Fin 0)\<close> False
      have "search rnd (Node pt plane l r) q d0 = ?s1"
        by (simp add: search_Node Let_def del: search.simps)
      ultimately show ?thesis
        by (simp only: all)
    qed
  qed
  show ?case
    by (rule cur_good [OF res Node.prems(3)])
qed

lemma Distance_LatLon: "LatLon p = LatLon p' \<Longrightarrow> Distance rnd q p = Distance rnd q p'"
  by (simp add: Distance_def)

lemma in_range_finite: "in_range a b \<Longrightarrow> finite_pair (a, b)"
  by (cases a; cases b) (auto simp: in_range_def finite_pair_def)

lemma Nearest_optimal:
  assumes r: "rounding rnd" and q: "finite_pair (LatLon q)"
    and ne: "keys \<noteq> []" and f: "\<forall>x \<in> set keys. finite_pair (LatLon x)"
  shows "\<exists>p d. Nearest rnd (kdtree_New keys False) q = (Some p, d) \<and> d \<noteq> PosInf \<and> p \<in> set keys \<and>
               Distance rnd q p = d \<and> (\<forall>x \<in> set keys. f64_le d (Distance rnd q x))"
proof -
  let ?root = "build keys 0"
  obtain k p' where P: "Partition 0 keys (int 0) = (k, p')"
    by (cases "Partition 0 keys (int 0)") auto
  from build_Node [OF ne P] obtain pt plane l rr where root: "?root = Node pt plane l rr"
    by blast
  have st: "set_tree ?root = set keys" by (rule set_tree_build)
  with root have ptk: "pt \<in> set keys" by auto
  obtain bn d where s: "search rnd ?root q PosInf = (bn, d)"
    by (cases "search rnd ?root q PosInf") auto
  from f st have "\<forall>x \<in> set_tree ?root. finite_pair (LatLon x)" by simp
  from search_good [OF r q this invar_build, of PosInf] s st
  have g: "good rnd q (set keys) PosInf (bn, d)" by simp
  then have dv: "dval d" and lo: "\<forall>x \<in> set keys. f64_le (math_Min d PosInf) (Distance rnd q x)"
    and fo: "found rnd q (set keys) PosInf (bn, d)"
    by (simp_all add: good_def)
  from dv have mn: "math_Min d PosInf = d"
    by (auto simp: dval_def math_Min_def)
  from f ptk have "finite_pair (LatLon pt)" by simp
  from Distance_dval [OF q this, of rnd] obtain v where v: "Distance rnd q pt = Fin v"
    by (auto simp: dval_def)
  from lo mn ptk v have "f64_le d (Fin v)" by force
  with dv have lt: "f64_less d PosInf" and ninf: "d \<noteq> PosInf"
    by (auto simp: dval_def)
  with fo obtain pt' plane' l' r' where bn: "bn = Node pt' plane' l' r'" "pt' \<in> set keys"
      "Distance rnd q pt' = d"
    by (auto simp: found_def)
  from root s bn have "Nearest rnd (kdtree_New keys False) q = (Some pt', d)"
    by (simp add: Nearest_def kdtree_New_def del: search.simps)
  with bn ninf lo mn show ?thesis by simp
qed

text \<open>
  \<^verbatim>\<open>geoPoint.Distance\<close> from the query point to the key of a record computes the squared
  distance of the specification.
\<close>

lemma Distance_sq_distance:
  "Distance rnd \<lparr>LatLon = c, Index = i\<rparr> \<lparr>LatLon = (Lat l, Lon l), Index = j\<rparr> = sq_distance rnd c l"
  by (simp add: Distance_def sq_distance_def component_def Let_def)

lemma Query_body_optimal:
  assumes r: "rounding (fround env)"
    and t: "tree rg = Some (kdtree_New (keys_of (locations rg)) False)"
    and ne: "locations rg \<noteq> []"
    and f: "\<forall>l \<in> set (locations rg). in_range (Lat l) (Lon l)"
    and c: "in_range (fst c) (snd c)"
  shows "\<exists>l. Query_body env rg c = (Append l, []) \<and> l \<in> set (locations rg) \<and>
             (\<forall>l' \<in> set (locations rg).
                f64_le (sq_distance (fround env) c l) (sq_distance (fround env) c l'))"
proof -
  let ?q = "\<lparr>LatLon = c, Index = 0\<rparr>"
  let ?keys = "keys_of (locations rg)"
  from c have q: "finite_pair (LatLon ?q)"
    using in_range_finite [of "fst c" "snd c"] by simp
  from ne have kne: "?keys \<noteq> []" by (simp add: keys_of_def)
  have kf: "\<forall>x \<in> set ?keys. finite_pair (LatLon x)"
    using f by (auto simp: keys_of_def intro: in_range_finite)
  from Nearest_optimal [OF r q kne kf] obtain p d where
    n: "Nearest (fround env) (kdtree_New ?keys False) ?q = (Some p, d)" and d: "d \<noteq> PosInf"
    and p: "p \<in> set ?keys" and opt: "\<forall>x \<in> set ?keys. f64_le (Distance (fround env) ?q p) (Distance (fround env) ?q x)"
    by blast
  from p obtain i where i: "i < length (locations rg)" and pk: "p = ?keys ! i"
    by (auto simp: in_set_conv_nth keys_of_def)
  then have pi: "Index p = int i"
    by (simp add: keys_of_nth)
  from c have "\<not> out_of_range (fst c) (snd c)" by (simp add: in_range_iff)
  with t n d i pi have body: "Query_body env rg c = (Append (locations rg ! i), [])"
    by (simp add: Query_body_def Let_def math_IsInf_pos_def)
  have dist: "sq_distance (fround env) c (locations rg ! j) = Distance (fround env) ?q (?keys ! j)"
    if "j < length (locations rg)" for j
    using that by (simp add: keys_of_nth Distance_sq_distance)
  have "f64_le (sq_distance (fround env) c (locations rg ! i)) (sq_distance (fround env) c l')"
    if "l' \<in> set (locations rg)" for l'
  proof -
    from that obtain j where j: "j < length (locations rg)" "l' = locations rg ! j"
      by (auto simp: in_set_conv_nth)
    then have "?keys ! j \<in> set ?keys" by (simp add: keys_of_def)
    with opt i pk j show ?thesis by (simp add: dist)
  qed
  with body i show ?thesis by simp
qed

subsection \<open>The package state\<close>

lemma GetRGeocoder_done:
  assumes "geocoderOnce w" "geocoderInstance w = Some a" "a < length (heap w)"
  shows "GetRGeocoder vb w = (Inr a, w\<lparr>heap := (heap w)[a := (heap w ! a)\<lparr>verbose := vb\<rparr>]\<rparr>)"
  using assms by (simp add: GetRGeocoder_def)

lemma GetRGeocoder_first:
  assumes "\<not> geocoderOnce w"
  shows "GetRGeocoder vb w =
           (Inr (length (heap w)),
            w\<lparr>heap := heap w @ [new_RGeocoder vb], geocoderInstance := Some (length (heap w)),
              geocoderOnce := True\<rparr>)"
proof -
  have "(new_RGeocoder vb)\<lparr>verbose := vb\<rparr> = new_RGeocoder vb"
    by (simp add: new_RGeocoder_def)
  with assms show ?thesis
    by (simp add: GetRGeocoder_def Let_def)
qed

lemma GetRGeocoder_returns:
  assumes "world_ok w"
  shows "\<exists>a w1. GetRGeocoder vb w = (Inr a, w1) \<and> a < length (heap w1) \<and>
           heap w1 ! a = (if geocoderOnce w then (heap w ! a)\<lparr>verbose := vb\<rparr> else new_RGeocoder vb) \<and>
           (geocoderOnce w \<longrightarrow> geocoderInstance w = Some a)"
proof (cases "geocoderOnce w")
  case True
  with assms obtain a where a: "geocoderInstance w = Some a" "a < length (heap w)"
    by (auto simp: world_ok_def split: option.splits)
  from GetRGeocoder_done [OF True a] True a show ?thesis
    by simp
next
  case False
  from GetRGeocoder_first [OF False] False show ?thesis
    by simp
qed

lemma Query_reachable_no_panic:
  assumes "reachable env rg0" "csv_ok env"
  shows "\<exists>r. fst (Query env rg0 coordinates) = Inr r"
proof -
  obtain e rg logs where od: "once_Do env rg0 = (e, rg, logs)"
    by (cases "once_Do env rg0") auto
  from once_Do_no_panic [OF assms(2), of rg0] od have e: "e = None" by simp
  from once_Do_state_ok [OF reachable_state_ok [OF assms(1)] od] have ok: "state_ok rg" .
  show ?thesis
  proof (cases "tree rg = None \<and> length (locations rg) = 0")
    case True
    with od e show ?thesis
      by (simp add: Query_def)
  next
    case False
    with ok have one: "tree rg = None \<Longrightarrow> length (locations rg) = 1"
      by (cases "locations rg") (auto simp: state_ok_def)
    have "\<exists>r. fst (Query_loop env rg cs results) = Inr r" for cs results
    proof (induction cs arbitrary: results)
      case Nil
      show ?case by simp
    next
      case (Cons c cs)
      from one have "fst (Query_body env rg c) \<noteq> Panics x" for x
        by (auto simp: Query_body_def Let_def case_prod_beta split: option.splits)
      with Cons show ?case
        by (cases "Query_body env rg c"; cases "fst (Query_body env rg c)")
           (auto simp: case_prod_beta)
    qed
    with od e show ?thesis
      by (auto simp: Query_def case_prod_beta)
  qed
qed

lemma FindLocation_no_panic:
  assumes w: "world_ok w" and c: "csv_ok env"
    and i: "case geocoderInstance w of None \<Rightarrow> True | Some a \<Rightarrow> reachable env (heap w ! a)"
  shows "\<exists>r. fst (FindLocation env coordinate vb w) = Inr r"
proof (cases "out_of_range (fst coordinate) (snd coordinate)")
  case True
  then show ?thesis by (simp add: FindLocation_def)
next
  case False
  from GetRGeocoder_returns [OF w, of vb] obtain a w1 where
    g: "GetRGeocoder vb w = (Inr a, w1)"
    and h: "heap w1 ! a = (if geocoderOnce w then (heap w ! a)\<lparr>verbose := vb\<rparr> else new_RGeocoder vb)"
    and o: "geocoderOnce w \<longrightarrow> geocoderInstance w = Some a"
    by blast
  have "reachable env (heap w1 ! a)"
  proof (cases "geocoderOnce w")
    case True
    with o i have "reachable env (heap w ! a)" by simp
    with True h show ?thesis by (simp add: reachable.set_verbose)
  next
    case False
    with h show ?thesis by (simp add: reachable.fresh)
  qed
  from Query_reachable_no_panic [OF this c, of "[coordinate]"] obtain r where
    "fst (Query env (heap w1 ! a) [coordinate]) = Inr r"
    by blast
  with False g show ?thesis
    by (auto simp: FindLocation_def case_prod_beta Let_def split: option.splits list.splits)
qed

section \<open>The claims\<close>

subsection \<open>Batch validation\<close>

text \<open>
  Claim C1, as amended.  The claim gives nil for every batch with an out-of-range coordinate.
  \<^verbatim>\<open>Query\<close> tests for the empty state before it looks at the coordinates, so an empty
  geocoder answers such a batch with an empty list that is not nil.  For a geocoder that
  holds at least one record after its loader has run, a batch with a coordinate below -90
  or above 90 in latitude, or below -180 or above 180 in longitude, gives nil, whatever the
  other coordinates are.
\<close>

theorem Query_invalid_batch_nil:
  assumes "reachable env rg0"
      and "locations (fst (snd (Query env rg0 coordinates))) \<noteq> []"
      and "\<exists>c \<in> set coordinates. out_of_range (fst c) (snd c)"
  shows "fst (Query env rg0 coordinates) = Inr None"
proof -
  obtain e rg logs where od: "once_Do env rg0 = (e, rg, logs)"
    by (cases "once_Do env rg0") auto
  from assms(1) have ok0: "state_ok rg0" by (rule reachable_state_ok)
  from once_Do_state_ok [OF ok0 od] have ok: "state_ok rg" .
  from assms(2) od have ne: "locations rg \<noteq> []"
    by (simp add: Query_state)
  have "e = None"
  proof (rule ccontr)
    assume "e \<noteq> None"
    then obtain p where e: "e = Some p" by auto
    with od have no: "\<not> once rg0" by (auto simp: once_Do_def split: if_splits)
    with od e obtain rg1 where "loadData env rg0 = (Some p, rg1, logs)" "rg = rg1\<lparr>once := True\<rparr>"
      by (auto simp: once_Do_def split: prod.splits)
    with loadData_panic_state have "rg = rg0\<lparr>once := True\<rparr>" by blast
    with reachable_not_once_empty [OF assms(1) no] have "locations rg = []" by simp
    with ne show False by simp
  qed
  moreover from assms(3) have "coordinates \<noteq> []" by auto
  moreover note Query_loop_invalid [OF ok ne assms(3), of env "[]"]
  ultimately show ?thesis
    using od ne by (simp add: Query_def case_prod_beta)
qed

text \<open>The third scenario of the specification: the batch (1,1), (999,999) over three points.\<close>

theorem Query_invalid_batch_nil_witness:
  "reachable env_abc (new_RGeocoder False) \<and>
   locations (fst (snd (Query env_abc (new_RGeocoder False) [(Fin 1, Fin 1), (Fin 999, Fin 999)]))) \<noteq> [] \<and>
   (\<exists>c \<in> set [(Fin 1, Fin 1), (Fin 999, Fin 999)]. out_of_range (fst c) (snd c)) \<and>
   fst (Query env_abc (new_RGeocoder False) [(Fin 1, Fin 1), (Fin 999, Fin 999)]) = Inr None"
proof -
  have h1: "reachable env_abc (new_RGeocoder False)"
    by (rule reachable.fresh)
  have h2: "locations (fst (snd (Query env_abc (new_RGeocoder False) [(Fin 1, Fin 1), (Fin 999, Fin 999)]))) \<noteq> []"
    by code_simp
  have h3: "\<exists>c \<in> set [(Fin 1, Fin 1), (Fin 999, Fin 999)]. out_of_range (fst c) (snd c)"
    by (simp add: out_of_range_def f64_greater_def)
  from Query_invalid_batch_nil [OF h1 h2 h3] h1 h2 h3 show ?thesis
    by blast
qed

text \<open>
  Claim C1 as stated fails where the data file cannot be opened: the batch (999,999) gives
  the empty list.
\<close>

theorem Query_invalid_batch_empty_state_counterexample:
  "out_of_range (Fin 999) (Fin 999) \<and>
   fst (Query env_nofile (new_RGeocoder False) [(Fin 999, Fin 999)]) = Inr (Some []) \<and>
   fst (Query env_nofile (new_RGeocoder False) [(Fin 999, Fin 999)]) \<noteq> Inr None"
  by code_simp

subsection \<open>The nearest record\<close>

text \<open>
  Claim C2.  The claim asks that the record returned for an in-range coordinate is at a
  squared distance no greater than that of any record of the dataset.  The loader keeps a
  row whose latitude is \<^verbatim>\<open>NaN\<close> (claim C6), and with such a record in the dataset the
  property fails.  Over the rows A at (NaN,0) and B at (0,0) the key of A is the root of
  the tree; for the query (0,0) the distance to the root is NaN, the minimum kept by the
  search is NaN from then on, and no comparison with it holds, so no other key replaces
  the root.  \<^verbatim>\<open>Query\<close> returns A, whose squared distance to the query is NaN, although B
  is at the squared distance 0.
\<close>

theorem Query_returns_NaN_record:
  "locations (fst (snd (Query env_nan (new_RGeocoder False) [(Fin 0, Fin 0)]))) =
     [\<lparr>Lat = NaN, Lon = Fin 0, City = ''A'', Admin1 = [], Admin2 = [], CC = ''GH'', Country = []\<rparr>,
      \<lparr>Lat = Fin 0, Lon = Fin 0, City = ''B'', Admin1 = [], Admin2 = [], CC = ''GH'', Country = []\<rparr>] \<and>
   in_range (Fin 0) (Fin 0) \<and>
   fst (Query env_nan (new_RGeocoder False) [(Fin 0, Fin 0)]) =
     Inr (Some [\<lparr>Lat = NaN, Lon = Fin 0, City = ''A'', Admin1 = [], Admin2 = [], CC = ''GH'', Country = []\<rparr>]) \<and>
   sq_distance (fround env_nan) (Fin 0, Fin 0)
     \<lparr>Lat = NaN, Lon = Fin 0, City = ''A'', Admin1 = [], Admin2 = [], CC = ''GH'', Country = []\<rparr> = NaN \<and>
   sq_distance (fround env_nan) (Fin 0, Fin 0)
     \<lparr>Lat = Fin 0, Lon = Fin 0, City = ''B'', Admin1 = [], Admin2 = [], CC = ''GH'', Country = []\<rparr> = Fin 0 \<and>
   \<not> f64_le
       (sq_distance (fround env_nan) (Fin 0, Fin 0)
          \<lparr>Lat = NaN, Lon = Fin 0, City = ''A'', Admin1 = [], Admin2 = [], CC = ''GH'', Country = []\<rparr>)
       (sq_distance (fround env_nan) (Fin 0, Fin 0)
          \<lparr>Lat = Fin 0, Lon = Fin 0, City = ''B'', Admin1 = [], Admin2 = [], CC = ''GH'', Country = []\<rparr>)"
  by code_simp

text \<open>
  Where every loaded record is inside the ranges of the data model the property holds.  The
  reachable geocoder has run its loader in this call or before and holds at least two
  records, and the arithmetic rounds monotonically.  Then a batch of in-range coordinates
  returns one record for each coordinate, and the squared distance from the coordinate to
  that record is at most the squared distance to any record of the dataset.
\<close>

lemma Query_nearest_optimal:
  assumes "reachable env rg0" and "rounding (fround env)"
      and "2 \<le> length (locations (fst (snd (Query env rg0 coordinates))))"
      and "\<forall>l \<in> set (locations (fst (snd (Query env rg0 coordinates)))). in_range (Lat l) (Lon l)"
      and "\<forall>c \<in> set coordinates. in_range (fst c) (snd c)"
  shows "\<exists>res. fst (Query env rg0 coordinates) = Inr (Some res) \<and>
           length res = length coordinates \<and>
           (\<forall>i < length coordinates.
              res ! i \<in> set (locations (fst (snd (Query env rg0 coordinates)))) \<and>
              (\<forall>l \<in> set (locations (fst (snd (Query env rg0 coordinates)))).
                 f64_le (sq_distance (fround env) (coordinates ! i) (res ! i))
                        (sq_distance (fround env) (coordinates ! i) l)))"
proof -
  obtain e rg logs where od: "once_Do env rg0 = (e, rg, logs)"
    by (cases "once_Do env rg0") auto
  then have st: "fst (snd (Query env rg0 coordinates)) = rg"
    by (simp add: Query_state)
  from assms(3) st have two: "2 \<le> length (locations rg)" by simp
  then have ne: "locations rg \<noteq> []" by auto
  with once_Do_nonempty_no_panic [OF assms(1)] od have e: "e = None" by simp
  from once_Do_state_ok [OF reachable_state_ok [OF assms(1)] od] two
  obtain t where t: "tree rg = Some t"
    by (cases "tree rg") (auto simp: state_ok_def)
  with once_Do_tree_ok [OF reachable_tree_ok [OF assms(1)] od]
  have t': "tree rg = Some (kdtree_New (keys_of (locations rg)) False)"
    by (simp add: tree_ok_def)
  from assms(4) st have f: "\<forall>l \<in> set (locations rg). in_range (Lat l) (Lon l)" by simp
  note body = Query_body_optimal [OF assms(2) t' ne f]
  define res where "res = map (\<lambda>c. appended (fst (Query_body env rg c))) coordinates"
  have "\<forall>c \<in> set coordinates. \<exists>l. fst (Query_body env rg c) = Append l"
    using body assms(5) by force
  from Query_loop_append [OF this, of "[]"]
  have loop: "fst (Query_loop env rg coordinates []) = Inr (Some res)"
    by (simp add: res_def)
  have q: "fst (Query env rg0 coordinates) = Inr (Some res)"
  proof (cases coordinates)
    case Nil
    with od e show ?thesis by (simp add: Query_def res_def)
  next
    case (Cons c cs)
    with od e t loop show ?thesis by (simp add: Query_def case_prod_beta)
  qed
  have "res ! i \<in> set (locations rg) \<and>
        (\<forall>l \<in> set (locations rg).
           f64_le (sq_distance (fround env) (coordinates ! i) (res ! i))
                  (sq_distance (fround env) (coordinates ! i) l))"
    if "i < length coordinates" for i
  proof -
    from that assms(5) have "in_range (fst (coordinates ! i)) (snd (coordinates ! i))" by simp
    from body [OF this] that show ?thesis
      by (auto simp: res_def appended_def)
  qed
  with q st show ?thesis
    by (intro exI [of _ res]) (simp add: res_def)
qed

text \<open>
  The first scenario of the specification: over the points A (0,0), B (10,10) and
  C (-10,-10) the query (1,1) returns A, at the squared distance 2.
\<close>

lemma Query_nearest_optimal_example:
  "reachable env_abc (new_RGeocoder False) \<and> rounding (fround env_abc) \<and>
   locations (fst (snd (Query env_abc (new_RGeocoder False) [(Fin 1, Fin 1)]))) =
     [\<lparr>Lat = Fin 0, Lon = Fin 0, City = ''A'', Admin1 = [], Admin2 = [], CC = ''GH'', Country = []\<rparr>,
      \<lparr>Lat = Fin 10, Lon = Fin 10, City = ''B'', Admin1 = [], Admin2 = [], CC = ''GH'', Country = []\<rparr>,
      \<lparr>Lat = Fin (- 10), Lon = Fin (- 10), City = ''C'', Admin1 = [], Admin2 = [], CC = ''GH'', Country = []\<rparr>] \<and>
   in_range (Fin 0) (Fin 0) \<and> in_range (Fin 10) (Fin 10) \<and> in_range (Fin (- 10)) (Fin (- 10)) \<and>
   in_range (Fin 1) (Fin 1) \<and>
   (\<exists>res. fst (Query env_abc (new_RGeocoder False) [(Fin 1, Fin 1)]) = Inr (Some res) \<and>
      res ! 0 = \<lparr>Lat = Fin 0, Lon = Fin 0, City = ''A'', Admin1 = [], Admin2 = [], CC = ''GH'', Country = []\<rparr> \<and>
      sq_distance (fround env_abc) (Fin 1, Fin 1) (res ! 0) = Fin 2 \<and>
      f64_le (sq_distance (fround env_abc) (Fin 1, Fin 1) (res ! 0))
        (sq_distance (fround env_abc) (Fin 1, Fin 1)
           \<lparr>Lat = Fin 10, Lon = Fin 10, City = ''B'', Admin1 = [], Admin2 = [], CC = ''GH'', Country = []\<rparr>) \<and>
      f64_le (sq_distance (fround env_abc) (Fin 1, Fin 1) (res ! 0))
        (sq_distance (fround env_abc) (Fin 1, Fin 1)
           \<lparr>Lat = Fin (- 10), Lon = Fin (- 10), City = ''C'', Admin1 = [], Admin2 = [], CC = ''GH'', Country = []\<rparr>))"
proof -
  let ?A = "\<lparr>Lat = Fin 0, Lon = Fin 0, City = ''A'', Admin1 = [], Admin2 = [], CC = ''GH'', Country = []\<rparr>"
  let ?B = "\<lparr>Lat = Fin 10, Lon = Fin 10, City = ''B'', Admin1 = [], Admin2 = [], CC = ''GH'', Country = []\<rparr>"
  let ?C = "\<lparr>Lat = Fin (- 10), Lon = Fin (- 10), City = ''C'', Admin1 = [], Admin2 = [], CC = ''GH'', Country = []\<rparr>"
  let ?rg = "fst (snd (Query env_abc (new_RGeocoder False) [(Fin 1, Fin 1)]))"
  have h1: "reachable env_abc (new_RGeocoder False)"
    by (rule reachable.fresh)
  have h2: "rounding (fround env_abc)"
    by (simp add: rounding_def env_abc_def env_of_def)
  have locs: "locations ?rg = [?A, ?B, ?C]"
    by code_simp
  have r: "in_range (Fin 0) (Fin 0)" "in_range (Fin 10) (Fin 10)" "in_range (Fin (- 10)) (Fin (- 10))"
    "in_range (Fin 1) (Fin 1)"
    by (simp_all add: in_range_def)
  from locs have h3: "2 \<le> length (locations ?rg)" by simp
  from locs r have h4: "\<forall>l \<in> set (locations ?rg). in_range (Lat l) (Lon l)" by simp
  from r have h5: "\<forall>c \<in> set [(Fin 1, Fin 1)]. in_range (fst c) (snd c)" by simp
  have q: "fst (Query env_abc (new_RGeocoder False) [(Fin 1, Fin 1)]) = Inr (Some [?A])"
    by code_simp
  have d: "sq_distance (fround env_abc) (Fin 1, Fin 1) ?A = Fin 2"
    by (simp add: sq_distance_def f64_sub_def env_abc_def env_of_def)
  from Query_nearest_optimal [OF h1 h2 h3 h4 h5] obtain res where
    res: "fst (Query env_abc (new_RGeocoder False) [(Fin 1, Fin 1)]) = Inr (Some res)"
    and opt: "\<forall>l \<in> set (locations ?rg).
                 f64_le (sq_distance (fround env_abc) ([(Fin 1, Fin 1)] ! 0) (res ! 0))
                        (sq_distance (fround env_abc) ([(Fin 1, Fin 1)] ! 0) l)"
    by auto
  from res q have "res = [?A]" by simp
  with res opt locs d h1 h2 r show ?thesis
    by simp
qed

subsection \<open>The empty state\<close>

text \<open>
  Claim C3.  When the loader has run on a geocoder and no record is held afterwards, the
  query that ran it returns the empty list, every later query returns the empty list and
  leaves the geocoder as it is, for every coordinate and whatever \<^verbatim>\<open>verbose\<close> is set to, and
  \<^verbatim>\<open>FindLocation\<close> returns nil; none of them panics.
\<close>

theorem zero_records_empty_forever:
  assumes "reachable env rg0" and "csv_ok env"
      and "locations (fst (snd (once_Do env rg0))) = []"
  shows "fst (Query env rg0 coordinates) = Inr (Some []) \<and>
         (\<forall>env' vb coordinates'.
            Query env' ((fst (snd (Query env rg0 coordinates)))\<lparr>verbose := vb\<rparr>) coordinates' =
              (Inr (Some []), (fst (snd (Query env rg0 coordinates)))\<lparr>verbose := vb\<rparr>, [])) \<and>
         (\<forall>w w1 a coordinate vb.
            GetRGeocoder vb w = (Inr a, w1) \<longrightarrow> heap w1 ! a = rg0 \<longrightarrow>
            fst (FindLocation env coordinate vb w) = Inr None)"
proof -
  obtain e rg logs where od: "once_Do env rg0 = (e, rg, logs)"
    by (cases "once_Do env rg0") auto
  from once_Do_no_panic [OF assms(2), of rg0] od have e: "e = None" by simp
  from assms(3) od have loc: "locations rg = []" by simp
  from once_Do_state_ok [OF reachable_state_ok [OF assms(1)] od] loc
  have t: "tree rg = None"
    by (auto simp: state_ok_def split: option.splits)
  from once_Do_once [of env rg0] od have o: "once rg" by simp
  from od e loc t have q: "Query env rg0 cs = (Inr (Some []), rg, logs)" for cs
    by (simp add: Query_def)
  have later: "Query env' (rg\<lparr>verbose := vb\<rparr>) cs = (Inr (Some []), rg\<lparr>verbose := vb\<rparr>, [])"
    for env' vb cs
    by (rule Query_empty_state) (simp_all add: o t loc)
  have "fst (FindLocation env c vb w) = Inr None"
    if "GetRGeocoder vb w = (Inr a, w1)" "heap w1 ! a = rg0" for w w1 a c vb
    using that q [of "[c]"] by (simp add: FindLocation_def)
  with q later show ?thesis
    by simp
qed

theorem zero_records_empty_forever_witness:
  "reachable env_nofile (new_RGeocoder False) \<and> csv_ok env_nofile \<and>
   locations (fst (snd (once_Do env_nofile (new_RGeocoder False)))) = [] \<and>
   fst (Query env_nofile (new_RGeocoder False) [(Fin 1, Fin 1), (Fin 999, Fin 999)]) = Inr (Some []) \<and>
   fst (Query env_abc
          ((fst (snd (Query env_nofile (new_RGeocoder False) [(Fin 1, Fin 1), (Fin 999, Fin 999)])))
             \<lparr>verbose := True\<rparr>) [(Fin 1, Fin 1)]) = Inr (Some []) \<and>
   fst (FindLocation env_nofile (Fin 1, Fin 1) False world0) = Inr None"
proof -
  have h1: "reachable env_nofile (new_RGeocoder False)"
    by (rule reachable.fresh)
  have h2: "csv_ok env_nofile"
    by (simp add: csv_ok_def env_nofile_def env_of_def)
  have h3: "locations (fst (snd (once_Do env_nofile (new_RGeocoder False)))) = []"
    by code_simp
  have g: "GetRGeocoder False world0 = (Inr 0, world0\<lparr>heap := [new_RGeocoder False],
      geocoderInstance := Some 0, geocoderOnce := True\<rparr>)"
    by (simp add: GetRGeocoder_def world0_def Let_def new_RGeocoder_def)
  from zero_records_empty_forever [OF h1 h2 h3, of "[(Fin 1, Fin 1), (Fin 999, Fin 999)]"] g h1 h2 h3
  show ?thesis
    by simp
qed

subsection \<open>The single-record state\<close>

text \<open>
  Claim C4, as amended.  The claim gives the one loaded record for every query.  The range
  test of \<^verbatim>\<open>Query\<close> comes before the single-record shortcut, so a batch with an
  out-of-range coordinate gives nil.  When exactly one record is loaded, every batch whose
  coordinates all pass the range test gives that record at each position, whatever its
  distance to the coordinate.
\<close>

theorem Query_single_record:
  assumes "reachable env rg0"
      and "locations (fst (snd (Query env rg0 coordinates))) = [x]"
      and "\<forall>c \<in> set coordinates. \<not> out_of_range (fst c) (snd c)"
  shows "fst (Query env rg0 coordinates) = Inr (Some (replicate (length coordinates) x))"
proof -
  obtain e rg logs where od: "once_Do env rg0 = (e, rg, logs)"
    by (cases "once_Do env rg0") auto
  from assms(2) od have loc: "locations rg = [x]"
    by (simp add: Query_state)
  with once_Do_nonempty_no_panic [OF assms(1)] od have e: "e = None" by simp
  from once_Do_state_ok [OF reachable_state_ok [OF assms(1)] od] loc
  have t: "tree rg = None"
    by (auto simp: state_ok_def split: option.splits)
  have body: "Query_body env rg c = (Append x, [])" if "c \<in> set coordinates" for c
    using Query_body_single [OF t loc] assms(3) that by blast
  then have "\<forall>c \<in> set coordinates. \<exists>l. fst (Query_body env rg c) = Append l"
    by simp
  from Query_loop_append [OF this, of "[]"] body
  have "fst (Query_loop env rg coordinates []) = Inr (Some (map (\<lambda>c. x) coordinates))"
    by (simp add: appended_def cong: map_cong)
  with od e loc t show ?thesis
    by (cases coordinates) (simp_all add: Query_def case_prod_beta map_replicate_const)
qed

text \<open>The fifth scenario of the specification: the point (5,5) answers the query (89,179).\<close>

theorem Query_single_record_witness:
  "reachable env_x (new_RGeocoder False) \<and>
   locations (fst (snd (Query env_x (new_RGeocoder False) [(Fin 89, Fin 179)]))) =
     [\<lparr>Lat = Fin 5, Lon = Fin 5, City = ''X'', Admin1 = [], Admin2 = [], CC = ''GH'', Country = []\<rparr>] \<and>
   \<not> out_of_range (Fin 89) (Fin 179) \<and>
   fst (Query env_x (new_RGeocoder False) [(Fin 89, Fin 179)]) =
     Inr (Some [\<lparr>Lat = Fin 5, Lon = Fin 5, City = ''X'', Admin1 = [], Admin2 = [], CC = ''GH'', Country = []\<rparr>])"
proof -
  have h1: "reachable env_x (new_RGeocoder False)"
    by (rule reachable.fresh)
  have h2: "locations (fst (snd (Query env_x (new_RGeocoder False) [(Fin 89, Fin 179)]))) =
     [\<lparr>Lat = Fin 5, Lon = Fin 5, City = ''X'', Admin1 = [], Admin2 = [], CC = ''GH'', Country = []\<rparr>]"
    by code_simp
  have h3: "\<forall>c \<in> set [(Fin 89, Fin 179)]. \<not> out_of_range (fst c) (snd c)"
    by (simp add: out_of_range_def f64_greater_def)
  from Query_single_record [OF h1 h2 h3] h1 h2 h3 show ?thesis
    by simp
qed

text \<open>
  Claim C4 as stated fails at the query (999,999): one record is loaded, no tree is built,
  and the result is nil.
\<close>

theorem Query_single_record_invalid_counterexample:
  "locations (fst (snd (Query env_x (new_RGeocoder False) [(Fin 999, Fin 999)]))) =
     [\<lparr>Lat = Fin 5, Lon = Fin 5, City = ''X'', Admin1 = [], Admin2 = [], CC = ''GH'', Country = []\<rparr>] \<and>
   tree (fst (snd (Query env_x (new_RGeocoder False) [(Fin 999, Fin 999)]))) = None \<and>
   fst (Query env_x (new_RGeocoder False) [(Fin 999, Fin 999)]) = Inr None"
  by code_simp

subsection \<open>The single-coordinate query\<close>

text \<open>
  Claim C5.  The claim asks that \<^verbatim>\<open>FindLocation\<close> return nil at once for a coordinate out of
  range, without touching the geocoder.  The test at its head is written with four
  comparisons, and all four are false for NaN.  For the coordinate (NaN,0), whose latitude
  is not in [-90, 90], \<^verbatim>\<open>FindLocation\<close> from the initial package state creates the
  singleton, runs the loader, and returns the record A with its country name.
\<close>

theorem FindLocation_accepts_NaN:
  "\<not> in_range NaN (Fin 0) \<and>
   \<not> (f64_le (Fin (- 90)) NaN \<and> f64_le NaN (Fin 90)) \<and>
   fst (FindLocation env_abc (NaN, Fin 0) False world0) =
     Inr (Some \<lparr>Lat = Fin 0, Lon = Fin 0, City = ''A'', Admin1 = [], Admin2 = [], CC = ''GH'',
                 Country = ''Ghana''\<rparr>) \<and>
   geocoderOnce (fst (snd (FindLocation env_abc (NaN, Fin 0) False world0))) \<and>
   geocoderInstance (fst (snd (FindLocation env_abc (NaN, Fin 0) False world0))) = Some 0 \<and>
   once (heap (fst (snd (FindLocation env_abc (NaN, Fin 0) False world0))) ! 0) \<and>
   length (locations (heap (fst (snd (FindLocation env_abc (NaN, Fin 0) False world0))) ! 0)) = 3 \<and>
   fst (snd (FindLocation env_abc (NaN, Fin 0) False world0)) \<noteq> world0"
  by code_simp

text \<open>
  What \<^verbatim>\<open>FindLocation\<close> does by its own test.  For a coordinate the test rejects it returns
  nil, leaves the package state and every geocoder as they are and logs nothing.  For every
  other coordinate, in a consistent package state, it takes the singleton from
  \<^verbatim>\<open>GetRGeocoder\<close>, runs \<^verbatim>\<open>Query\<close> on it with the one-element batch, stores the geocoder
  \<^verbatim>\<open>Query\<close> leaves, and returns the first element of the batch result, with its country
  name filled in, or nil when the batch result is nil or empty.
\<close>

lemma FindLocation_validates_then_delegates:
  assumes "world_ok w"
  shows "(out_of_range (fst coordinate) (snd coordinate) \<longrightarrow>
            FindLocation env coordinate vb w = (Inr None, w, [])) \<and>
         (\<not> out_of_range (fst coordinate) (snd coordinate) \<longrightarrow>
            (\<exists>a w1. GetRGeocoder vb w = (Inr a, w1) \<and>
               FindLocation env coordinate vb w =
                 (case fst (Query env (heap w1 ! a) [coordinate]) of
                    Inl e \<Rightarrow> Inl e
                  | Inr None \<Rightarrow> Inr None
                  | Inr (Some []) \<Rightarrow> Inr None
                  | Inr (Some (result # results)) \<Rightarrow>
                      Inr (Some (result\<lparr>Country := countryName env (CC result)\<rparr>)),
                  w1\<lparr>heap := (heap w1)[a := fst (snd (Query env (heap w1 ! a) [coordinate]))]\<rparr>,
                  snd (snd (Query env (heap w1 ! a) [coordinate])))))"
proof -
  from GetRGeocoder_returns [OF assms, of vb] obtain a w1 where "GetRGeocoder vb w = (Inr a, w1)"
    by blast
  then show ?thesis
    by (auto simp: FindLocation_def case_prod_beta Let_def split: sum.splits option.splits list.splits)
qed

text \<open>
  From the initial package state: (999,999) is rejected and nothing changes; (1,1) over the
  three points gives the point A with its country name.
\<close>

lemma FindLocation_validates_then_delegates_example:
  "world_ok world0 \<and>
   out_of_range (Fin 999) (Fin 999) \<and>
   FindLocation env_abc (Fin 999, Fin 999) True world0 = (Inr None, world0, []) \<and>
   \<not> out_of_range (Fin 1) (Fin 1) \<and>
   fst (FindLocation env_abc (Fin 1, Fin 1) False world0) =
     Inr (Some \<lparr>Lat = Fin 0, Lon = Fin 0, City = ''A'', Admin1 = [], Admin2 = [], CC = ''GH'',
                 Country = ''Ghana''\<rparr>)"
proof -
  have h: "world_ok world0"
    by (simp add: world_ok_def world0_def)
  have o: "out_of_range (Fin 999) (Fin 999)" "\<not> out_of_range (Fin 1) (Fin 1)"
    by (simp_all add: out_of_range_def f64_greater_def)
  have g: "GetRGeocoder False world0 = (Inr 0, world0\<lparr>heap := [new_RGeocoder False],
      geocoderInstance := Some 0, geocoderOnce := True\<rparr>)"
    by (simp add: GetRGeocoder_def world0_def Let_def new_RGeocoder_def)
  have q: "fst (Query env_abc (new_RGeocoder False) [(Fin 1, Fin 1)]) =
     Inr (Some [\<lparr>Lat = Fin 0, Lon = Fin 0, City = ''A'', Admin1 = [], Admin2 = [], CC = ''GH'', Country = []\<rparr>])"
    by code_simp
  have c: "countryName env_abc ''GH'' = ''Ghana''"
    by (simp add: env_abc_def env_of_def)
  from FindLocation_validates_then_delegates [OF h, of "(Fin 999, Fin 999)" env_abc True]
    FindLocation_validates_then_delegates [OF h, of "(Fin 1, Fin 1)" env_abc False]
    h o g q c
  show ?thesis
    by simp
qed

subsection \<open>What the loader keeps\<close>

text \<open>
  Claim C6.  The loader skips a row when \<^verbatim>\<open>ParseFloat\<close> returns an error for a coordinate or
  when a coordinate compares below or above its bounds (\<open>loadRows_not_out_of_range\<close>).  Go
  parses the string \<^verbatim>\<open>NaN\<close> without an error, and every comparison with NaN is false: a
  row with the latitude \<^verbatim>\<open>NaN\<close> is kept, its record is stored and its key is among the
  keys handed to \<^verbatim>\<open>kdtree.New\<close>.  The latitude of that record is not in [-90, 90].
\<close>

theorem loader_keeps_NaN_row:
  "loadData env_nan (new_RGeocoder False) =
     (None,
      \<lparr>tree = Some (kdtree_New [\<lparr>LatLon = (NaN, Fin 0), Index = 0\<rparr>,
                                \<lparr>LatLon = (Fin 0, Fin 0), Index = 1\<rparr>] False),
       locations = [\<lparr>Lat = NaN, Lon = Fin 0, City = ''A'', Admin1 = [], Admin2 = [],
                      CC = ''GH'', Country = []\<rparr>,
                    \<lparr>Lat = Fin 0, Lon = Fin 0, City = ''B'', Admin1 = [], Admin2 = [],
                      CC = ''GH'', Country = []\<rparr>],
       once = False, verbose = False\<rparr>,
      []) \<and>
   \<not> in_range NaN (Fin 0) \<and>
   \<not> (f64_le (Fin (- 90)) NaN \<and> f64_le NaN (Fin 90))"
  by code_simp

subsection \<open>No panic\<close>

text \<open>
  Claim C7.  First: on a reachable geocoder, with the reader keeping its guarantee on the
  field count, \<^verbatim>\<open>Query\<close> returns a result for every batch, and it never panics; nor does
  \<^verbatim>\<open>FindLocation\<close> in a consistent package state whose singleton is reachable.  Second: on
  any geocoder whose loader is done and that has a tree with planes 0 and 1, reachable or
  not, a batch of coordinates that pass the range test returns one location for each
  coordinate; where the nearest key found for a coordinate holds a position outside the
  locations, the location at that place of the result is the empty one and the position
  is logged.
\<close>

theorem Query_never_panics:
  "(reachable env rg0 \<and> csv_ok env \<longrightarrow> (\<exists>r. fst (Query env rg0 coordinates) = Inr r)) \<and>
   (once rg \<and> tree rg = Some t \<and> planes_ok (Root t) \<and>
    (\<forall>c \<in> set coordinates. \<not> out_of_range (fst c) (snd c)) \<longrightarrow>
      (\<exists>res logs. Query env rg coordinates = (Inr (Some res), rg, logs) \<and>
         length res = length coordinates \<and>
         (\<forall>i < length coordinates. \<forall>p d.
            Nearest (fround env) t \<lparr>LatLon = coordinates ! i, Index = 0\<rparr> = (Some p, d) \<longrightarrow>
            d \<noteq> PosInf \<longrightarrow>
            \<not> (0 \<le> Index p \<and> Index p < int (length (locations rg))) \<longrightarrow>
              res ! i = empty_Location \<and> Log_InvalidIndex (Index p) \<in> set logs))) \<and>
   (world_ok w \<and> csv_ok env \<and>
    (case geocoderInstance w of None \<Rightarrow> True | Some a \<Rightarrow> reachable env (heap w ! a)) \<longrightarrow>
      (\<exists>r. fst (FindLocation env coordinate vb w) = Inr r))"
proof (intro conjI impI)
  assume "reachable env rg0 \<and> csv_ok env"
  then show "\<exists>r. fst (Query env rg0 coordinates) = Inr r"
    using Query_reachable_no_panic by blast
next
  assume "world_ok w \<and> csv_ok env \<and>
    (case geocoderInstance w of None \<Rightarrow> True | Some a \<Rightarrow> reachable env (heap w ! a))"
  then show "\<exists>r. fst (FindLocation env coordinate vb w) = Inr r"
    using FindLocation_no_panic by blast
next
  assume a: "once rg \<and> tree rg = Some t \<and> planes_ok (Root t) \<and>
    (\<forall>c \<in> set coordinates. \<not> out_of_range (fst c) (snd c))"
  then have t: "tree rg = Some t" and o: "once rg"
    and r: "\<And>c. c \<in> set coordinates \<Longrightarrow> \<not> out_of_range (fst c) (snd c)"
    by auto
  define res where "res = map (\<lambda>c. appended (fst (Query_body env rg c))) coordinates"
  define logs where "logs = concat (map (\<lambda>c. snd (Query_body env rg c)) coordinates)"
  have "\<forall>c \<in> set coordinates. \<exists>l. fst (Query_body env rg c) = Append l"
    using Query_body_tree [OF t r] by blast
  from Query_loop_append [OF this, of "[]"]
  have loop: "Query_loop env rg coordinates [] = (Inr (Some res), logs)"
    by (simp add: res_def logs_def)
  have q: "Query env rg coordinates = (Inr (Some res), rg, logs)"
  proof (cases coordinates)
    case Nil
    with o t show ?thesis
      by (simp add: Query_def once_Do_def res_def logs_def)
  next
    case (Cons c cs)
    with o t loop show ?thesis
      by (simp add: Query_def once_Do_def)
  qed
  have "res ! i = empty_Location \<and> Log_InvalidIndex (Index p) \<in> set logs"
    if i: "i < length coordinates"
      and n: "Nearest (fround env) t \<lparr>LatLon = coordinates ! i, Index = 0\<rparr> = (Some p, d)"
        "d \<noteq> PosInf" "\<not> (0 \<le> Index p \<and> Index p < int (length (locations rg)))"
    for i p d
  proof -
    from i have m: "coordinates ! i \<in> set coordinates" by simp
    from Query_body_invalid_index [OF t r [OF m] n]
    have b: "Query_body env rg (coordinates ! i) = (Append empty_Location, [Log_InvalidIndex (Index p)])" .
    with i have "res ! i = empty_Location"
      by (simp add: res_def appended_def)
    moreover from b m have "Log_InvalidIndex (Index p) \<in> set logs"
      by (force simp: logs_def)
    ultimately show ?thesis by simp
  qed
  with q show "\<exists>res logs. Query env rg coordinates = (Inr (Some res), rg, logs) \<and>
         length res = length coordinates \<and>
         (\<forall>i < length coordinates. \<forall>p d.
            Nearest (fround env) t \<lparr>LatLon = coordinates ! i, Index = 0\<rparr> = (Some p, d) \<longrightarrow>
            d \<noteq> PosInf \<longrightarrow>
            \<not> (0 \<le> Index p \<and> Index p < int (length (locations rg))) \<longrightarrow>
              res ! i = empty_Location \<and> Log_InvalidIndex (Index p) \<in> set logs)"
    by (intro exI [of _ res] exI [of _ logs]) (simp add: res_def)
qed

text \<open>
  The three points answer a batch with a coordinate out of range, and the geocoder with the
  key at position 7 answers (1,1) with the empty location and logs the position.
\<close>

theorem Query_never_panics_witness:
  "reachable env_abc (new_RGeocoder False) \<and> csv_ok env_abc \<and>
   (\<exists>r. fst (Query env_abc (new_RGeocoder False) [(Fin 1, Fin 1), (Fin 999, Fin 999)]) = Inr r) \<and>
   once rg_bad \<and>
   tree rg_bad = Some \<lparr>Root = Node \<lparr>LatLon = (Fin 0, Fin 0), Index = 7\<rparr> 0 NoNode NoNode, Count = 1\<rparr> \<and>
   planes_ok (Node \<lparr>LatLon = (Fin 0, Fin 0), Index = 7\<rparr> 0 NoNode NoNode) \<and>
   \<not> out_of_range (Fin 1) (Fin 1) \<and>
   Nearest (fround env_abc) \<lparr>Root = Node \<lparr>LatLon = (Fin 0, Fin 0), Index = 7\<rparr> 0 NoNode NoNode, Count = 1\<rparr>
     \<lparr>LatLon = (Fin 1, Fin 1), Index = 0\<rparr> = (Some \<lparr>LatLon = (Fin 0, Fin 0), Index = 7\<rparr>, Fin 2) \<and>
   (\<exists>logs. Query env_abc rg_bad [(Fin 1, Fin 1)] = (Inr (Some [empty_Location]), rg_bad, logs) \<and>
           Log_InvalidIndex 7 \<in> set logs) \<and>
   world_ok world0 \<and> geocoderInstance world0 = None \<and>
   (\<exists>r. fst (FindLocation env_abc (NaN, Fin 0) True world0) = Inr r)"
proof -
  let ?t = "\<lparr>Root = Node \<lparr>LatLon = (Fin 0, Fin 0), Index = 7\<rparr> 0 NoNode NoNode, Count = 1\<rparr>"
  have h1: "reachable env_abc (new_RGeocoder False)"
    by (rule reachable.fresh)
  have h2: "csv_ok env_abc"
    by (simp add: csv_ok_def env_abc_def env_of_def header_sample_def)
  have h3: "once rg_bad" "tree rg_bad = Some ?t" "planes_ok (Root ?t)"
    by (simp_all add: rg_bad_def)
  have h4: "\<forall>c \<in> set [(Fin 1, Fin 1)]. \<not> out_of_range (fst c) (snd c)"
    by (simp add: out_of_range_def f64_greater_def)
  have h5: "Nearest (fround env_abc) ?t \<lparr>LatLon = (Fin 1, Fin 1), Index = 0\<rparr> =
              (Some \<lparr>LatLon = (Fin 0, Fin 0), Index = 7\<rparr>, Fin 2)"
    by code_simp
  have h6: "\<not> (0 \<le> (7::int) \<and> 7 < int (length (locations rg_bad)))"
    by (simp add: rg_bad_def)
  have h7: "world_ok world0" "geocoderInstance world0 = None"
    by (simp_all add: world_ok_def world0_def)
  note inst1 = Query_never_panics [of env_abc "new_RGeocoder False" "[(Fin 1, Fin 1), (Fin 999, Fin 999)]"
      rg_bad ?t world0 "(NaN, Fin 0)" True]
  note inst2 = Query_never_panics [of env_abc "new_RGeocoder False" "[(Fin 1, Fin 1)]" rg_bad ?t
      world0 "(NaN, Fin 0)" True]
  from inst1 h2 h7 have c: "\<exists>r. fst (FindLocation env_abc (NaN, Fin 0) True world0) = Inr r"
    by simp
  from inst1 h1 h2 have a: "\<exists>r. fst (Query env_abc (new_RGeocoder False) [(Fin 1, Fin 1), (Fin 999, Fin 999)]) = Inr r"
    by blast
  from inst2 h3 h4 obtain res logs where q: "Query env_abc rg_bad [(Fin 1, Fin 1)] = (Inr (Some res), rg_bad, logs)"
    and l: "length res = 1"
    and i: "\<forall>i < length [(Fin 1 :: float64, Fin 1 :: float64)]. \<forall>p d.
            Nearest (fround env_abc) ?t \<lparr>LatLon = [(Fin 1, Fin 1)] ! i, Index = 0\<rparr> = (Some p, d) \<longrightarrow>
            d \<noteq> PosInf \<longrightarrow>
            \<not> (0 \<le> Index p \<and> Index p < int (length (locations rg_bad))) \<longrightarrow>
              res ! i = empty_Location \<and> Log_InvalidIndex (Index p) \<in> set logs"
    by auto
  from i [rule_format, of 0 "\<lparr>LatLon = (Fin 0, Fin 0), Index = 7\<rparr>" "Fin 2"] h5 h6
  have r0: "res ! 0 = empty_Location" and lg: "Log_InvalidIndex 7 \<in> set logs"
    by simp_all
  from l r0 have "res = [empty_Location]"
    by (cases res) auto
  with q lg have b: "\<exists>logs. Query env_abc rg_bad [(Fin 1, Fin 1)] = (Inr (Some [empty_Location]), rg_bad, logs) \<and>
           Log_InvalidIndex 7 \<in> set logs"
    by blast
  from a b c h1 h2 h3 h4 h5 h7 show ?thesis
    by simp
qed

subsection \<open>Determinism\<close>

text \<open>
  Claim C8.  When an invocation of \<^verbatim>\<open>Query\<close> has returned a result, a second invocation
  with the same coordinates on the geocoder it left returns the same result and leaves the
  geocoder unchanged: the tree and the locations are read, never written, once the loader
  has run.  This holds also when \<^verbatim>\<open>verbose\<close> was written in between and when the data
  file has changed, as long as the arithmetic rounds the same way.
\<close>

theorem Query_deterministic:
  assumes "fst (Query env rg0 coordinates) = Inr r" and "fround env' = fround env"
  shows "fst (Query env' ((fst (snd (Query env rg0 coordinates)))\<lparr>verbose := vb\<rparr>) coordinates) = Inr r \<and>
         fst (snd (Query env' ((fst (snd (Query env rg0 coordinates)))\<lparr>verbose := vb\<rparr>) coordinates)) =
           (fst (snd (Query env rg0 coordinates)))\<lparr>verbose := vb\<rparr>"
proof -
  obtain e rg logs where od: "once_Do env rg0 = (e, rg, logs)"
    by (cases "once_Do env rg0") auto
  from once_Do_once [of env rg0] od have o: "once rg" by simp
  then have o': "once (rg\<lparr>verbose := vb\<rparr>)" by simp
  from od have st: "fst (snd (Query env rg0 coordinates)) = rg"
    by (simp add: Query_state)
  from assms(1) od have e: "e = None"
    by (cases e) (auto simp: Query_def)
  have "fst (Query env' (rg\<lparr>verbose := vb\<rparr>) coordinates) = fst (Query env rg0 coordinates)"
    using od e o Query_loop_verbose [OF assms(2), where rg = rg and vb = vb and coordinates = coordinates and results = "[]"]
    by (simp add: Query_def once_Do_def case_prod_beta)
  with assms(1) st Query_once [OF o', of env' coordinates] show ?thesis
    by simp
qed

text \<open>A query over the three points, repeated with \<^verbatim>\<open>verbose\<close> switched off and the file gone.\<close>

theorem Query_deterministic_witness:
  "fst (Query env_abc (new_RGeocoder True) [(Fin 1, Fin 1), (Fin 9, Fin 8)]) =
     Inr (Some [\<lparr>Lat = Fin 0, Lon = Fin 0, City = ''A'', Admin1 = [], Admin2 = [], CC = ''GH'', Country = []\<rparr>,
                \<lparr>Lat = Fin 10, Lon = Fin 10, City = ''B'', Admin1 = [], Admin2 = [], CC = ''GH'', Country = []\<rparr>]) \<and>
   fround env_nofile = fround env_abc \<and>
   fst (Query env_nofile
          ((fst (snd (Query env_abc (new_RGeocoder True) [(Fin 1, Fin 1), (Fin 9, Fin 8)])))\<lparr>verbose := False\<rparr>)
          [(Fin 1, Fin 1), (Fin 9, Fin 8)]) =
     Inr (Some [\<lparr>Lat = Fin 0, Lon = Fin 0, City = ''A'', Admin1 = [], Admin2 = [], CC = ''GH'', Country = []\<rparr>,
                \<lparr>Lat = Fin 10, Lon = Fin 10, City = ''B'', Admin1 = [], Admin2 = [], CC = ''GH'', Country = []\<rparr>])"
proof -
  have h1: "fst (Query env_abc (new_RGeocoder True) [(Fin 1, Fin 1), (Fin 9, Fin 8)]) =
     Inr (Some [\<lparr>Lat = Fin 0, Lon = Fin 0, City = ''A'', Admin1 = [], Admin2 = [], CC = ''GH'', Country = []\<rparr>,
                \<lparr>Lat = Fin 10, Lon = Fin 10, City = ''B'', Admin1 = [], Admin2 = [], CC = ''GH'', Country = []\<rparr>])"
    by code_simp
  have h2: "fround env_nofile = fround env_abc"
    by (simp add: env_nofile_def env_abc_def env_of_def)
  from Query_deterministic [OF h1 h2, of False] h1 h2 show ?thesis
    by simp
qed

subsection \<open>The singleton\<close>

text \<open>
  Claim C10.  In a consistent package state every call of \<^verbatim>\<open>GetRGeocoder\<close> returns a pointer
  and leaves the state consistent with \<^verbatim>\<open>geocoderInstance\<close> equal to that pointer; when the
  singleton exists already the pointer returned is the stored one, the next call returns it
  again, and the object it points to differs from the one before the call in the field
  \<^verbatim>\<open>verbose\<close> only, which holds the argument: tree, locations and \<^verbatim>\<open>once\<close> are as before,
  and so is every other object.
\<close>

theorem GetRGeocoder_singleton:
  assumes "world_ok w"
  shows "\<exists>a. fst (GetRGeocoder vb w) = Inr a \<and>
           world_ok (snd (GetRGeocoder vb w)) \<and>
           geocoderOnce (snd (GetRGeocoder vb w)) \<and>
           geocoderInstance (snd (GetRGeocoder vb w)) = Some a \<and>
           a < length (heap (snd (GetRGeocoder vb w))) \<and>
           fst (GetRGeocoder vb' (snd (GetRGeocoder vb w))) = Inr a \<and>
           verbose (heap (snd (GetRGeocoder vb w)) ! a) = vb \<and>
           (\<forall>b < length (heap w). b \<noteq> a \<longrightarrow> heap (snd (GetRGeocoder vb w)) ! b = heap w ! b) \<and>
           (if geocoderOnce w
            then geocoderInstance w = Some a \<and>
                 heap (snd (GetRGeocoder vb w)) = (heap w)[a := (heap w ! a)\<lparr>verbose := vb\<rparr>] \<and>
                 tree (heap (snd (GetRGeocoder vb w)) ! a) = tree (heap w ! a) \<and>
                 locations (heap (snd (GetRGeocoder vb w)) ! a) = locations (heap w ! a) \<and>
                 once (heap (snd (GetRGeocoder vb w)) ! a) = once (heap w ! a)
            else heap (snd (GetRGeocoder vb w)) = heap w @ [new_RGeocoder vb])"
proof (cases "geocoderOnce w")
  case True
  with assms obtain a where a: "geocoderInstance w = Some a" "a < length (heap w)"
    by (auto simp: world_ok_def split: option.splits)
  note g = GetRGeocoder_done [OF True a]
  have "GetRGeocoder vb' (snd (GetRGeocoder vb w)) =
          (Inr a, (snd (GetRGeocoder vb w))\<lparr>heap := (heap (snd (GetRGeocoder vb w)))
             [a := (heap (snd (GetRGeocoder vb w)) ! a)\<lparr>verbose := vb'\<rparr>]\<rparr>)"
    by (rule GetRGeocoder_done) (simp_all add: g True a)
  with True a show ?thesis
    by (simp add: g world_ok_def)
next
  case False
  note g = GetRGeocoder_first [OF False]
  have "GetRGeocoder vb' (snd (GetRGeocoder vb w)) =
          (Inr (length (heap w)), (snd (GetRGeocoder vb w))\<lparr>heap := (heap (snd (GetRGeocoder vb w)))
             [length (heap w) := (heap (snd (GetRGeocoder vb w)) ! length (heap w))\<lparr>verbose := vb'\<rparr>]\<rparr>)"
    by (rule GetRGeocoder_done) (simp_all add: g)
  with False show ?thesis
    by (simp add: g world_ok_def new_RGeocoder_def nth_append)
qed

text \<open>Two calls from the initial package state, the second with the other verbosity.\<close>

theorem GetRGeocoder_singleton_witness:
  "world_ok world0 \<and>
   fst (GetRGeocoder True world0) = Inr 0 \<and>
   fst (GetRGeocoder False (snd (GetRGeocoder True world0))) = Inr 0 \<and>
   heap (snd (GetRGeocoder True world0)) = [new_RGeocoder True]"
proof -
  have h: "world_ok world0"
    by (simp add: world_ok_def world0_def)
  from GetRGeocoder_singleton [OF h, of True False] h show ?thesis
    by (auto simp: world0_def)
qed

end
